theory Spec2Isabelle
  imports Main "HOL-Library.Monad_Syntax"
begin

section \<open>Memory model\<close>

text \<open>
  Both list classes build their chain from heap-allocated \<^verbatim>\<open>Node\<close> structs linked by raw
  pointers. A pointer is \<open>addr option\<close> (\<open>None\<close> is \<^verbatim>\<open>nullptr\<close>), the heap is a partial map
  from addresses to nodes, and dereferencing an address that is not allocated has no
  defined result: every operation returns \<open>None\<close> there, as it does when it never returns.

  \<^verbatim>\<open>Node::value\<close> is a C++ \<^verbatim>\<open>int\<close>. The lists only store it and compare it with \<^verbatim>\<open><\<close>,
  \<^verbatim>\<open>==\<close> and \<^verbatim>\<open>!=\<close>; no arithmetic is done on it, so nothing can wrap, and it is modelled as
  \<open>int\<close> with the same order.

  \<^verbatim>\<open>Node::m\<close>, the per-node \<^verbatim>\<open>std::mutex\<close>, is kept outside the node record: the mutex of the
  node at address \<open>a\<close> is locked exactly when \<open>a \<in> held s\<close>. With one thread, acquiring a
  mutex that is already locked never returns, which is the result \<open>None\<close>.

  \<^verbatim>\<open>new Node\<close> takes the address \<open>brk s\<close> and advances it; addresses are not reused, and
  memory does not run out.

  The fields \<^verbatim>\<open>value\<close> and \<^verbatim>\<open>next\<close> are \<open>val\<close> and \<open>nxt\<close> here, and the local \<^verbatim>\<open>curr\<close> is \<open>cur\<close>,
  because the source's names are taken in Isabelle.
\<close>

type_synonym addr = nat

record node =
  val :: int
  nxt :: "addr option"

record mnode = node +
  removed :: bool

record 'n memory =
  heap :: "addr \<rightharpoonup> 'n"
  head :: addr
  brk :: addr
  held :: "addr set"

definition lock :: "'n memory \<Rightarrow> addr \<Rightarrow> 'n memory option" where
  "lock s a =
     (if heap s a = None \<or> a \<in> held s then None
      else Some (s\<lparr>held := insert a (held s)\<rparr>))"

definition unlock :: "'n memory \<Rightarrow> addr \<Rightarrow> 'n memory" where
  "unlock s a = s\<lparr>held := held s - {a}\<rparr>"

text \<open>\<^verbatim>\<open>if (curr) currLock = std::unique_lock<std::mutex>(curr->m);\<close>\<close>

definition lock_opt :: "'n memory \<Rightarrow> addr option \<Rightarrow> 'n memory option" where
  "lock_opt s p = (case p of None \<Rightarrow> Some s | Some c \<Rightarrow> lock s c)"

text \<open>
  Scope exit with \<^verbatim>\<open>predLock\<close> owning \<open>pred\<close> and \<^verbatim>\<open>currLock\<close> owning \<open>cur\<close> when it is not
  null: the destructors run in reverse order of declaration.
\<close>

definition release :: "'n memory \<Rightarrow> addr \<Rightarrow> addr option \<Rightarrow> 'n memory" where
  "release s pred cur =
     unlock (case cur of None \<Rightarrow> s | Some c \<Rightarrow> unlock s c) pred"

section \<open>FineGrainedList: lock coupling\<close>

definition FineGrainedList :: "node memory" where
  "FineGrainedList =
     \<lparr>heap = [0 \<mapsto> \<lparr>val = - 1, nxt = None\<rparr>], head = 0, brk = 1, held = {}\<rparr>"

text \<open>
  The \<^verbatim>\<open>while (curr && curr->value < val)\<close> loop, which \<^verbatim>\<open>insert\<close>, \<^verbatim>\<open>remove\<close> and
  \<^verbatim>\<open>contains\<close> each spell out in the same words. \<^verbatim>\<open>predLock = std::move(currLock)\<close>
  changes no mutex.
\<close>

partial_function (option) fine_loop ::
  "int \<Rightarrow> node memory \<Rightarrow> addr \<Rightarrow> addr option \<Rightarrow> (node memory \<times> addr \<times> addr option) option"
where
  "fine_loop v s pred cur =
     (case cur of
        None \<Rightarrow> Some (s, pred, None)
      | Some c \<Rightarrow>
          (case heap s c of
             None \<Rightarrow> None
           | Some cn \<Rightarrow>
               if val cn < v then
                 (case lock_opt (unlock s pred) (nxt cn) of
                    None \<Rightarrow> None
                  | Some s' \<Rightarrow> fine_loop v s' c (nxt cn))
               else Some (s, pred, cur)))"

declare fine_loop.simps [code]

text \<open>The opening of the three methods up to the end of the loop.\<close>

definition fine_locate ::
  "node memory \<Rightarrow> int \<Rightarrow> (node memory \<times> addr \<times> addr option) option"
where
  "fine_locate s v =
     do {
       s1 \<leftarrow> lock s (head s);
       hn \<leftarrow> heap s1 (head s1);
       s2 \<leftarrow> lock_opt s1 (nxt hn);
       fine_loop v s2 (head s2) (nxt hn)
     }"

definition fine_insert :: "node memory \<Rightarrow> int \<Rightarrow> node memory option" where
  "fine_insert s v =
     do {
       (s1, pred, cur) \<leftarrow> fine_locate s v;
       let newNode = brk s1;
       let s2 = s1\<lparr>heap := (heap s1)(newNode \<mapsto> \<lparr>val = v, nxt = cur\<rparr>), brk := Suc newNode\<rparr>;
       pn \<leftarrow> heap s2 pred;
       let s3 = s2\<lparr>heap := (heap s2)(pred \<mapsto> pn\<lparr>nxt := Some newNode\<rparr>)\<rparr>;
       Some (release s3 pred cur)
     }"

definition fine_remove :: "node memory \<Rightarrow> int \<Rightarrow> (node memory \<times> bool) option" where
  "fine_remove s v =
     do {
       (s1, pred, cur) \<leftarrow> fine_locate s v;
       case cur of
         None \<Rightarrow> Some (release s1 pred cur, False)
       | Some c \<Rightarrow>
           do {
             cn \<leftarrow> heap s1 c;
             if val cn = v then
               do {
                 pn \<leftarrow> heap s1 pred;
                 let s2 = s1\<lparr>heap := (heap s1)(pred \<mapsto> pn\<lparr>nxt := nxt cn\<rparr>)\<rparr>;
                 let s3 = unlock (unlock s2 c) pred;
                 Some (s3\<lparr>heap := (heap s3)(c := None)\<rparr>, True)
               }
             else Some (release s1 pred cur, False)
           }
     }"

definition fine_contains :: "node memory \<Rightarrow> int \<Rightarrow> (node memory \<times> bool) option" where
  "fine_contains s v =
     do {
       (s1, pred, cur) \<leftarrow> fine_locate s v;
       found \<leftarrow> (case cur of
                   None \<Rightarrow> Some False
                 | Some c \<Rightarrow> do { cn \<leftarrow> heap s1 c; Some (val cn = v) });
       Some (release s1 pred cur, found)
     }"

text \<open>
  Modelled from the spec: \<^verbatim>\<open>snapshot()\<close> of the lock-coupling list, which the class does not
  define. Following the spec's words it is the sequence of values of the nodes reachable
  from the sentinel's successor, read front to back.
\<close>

partial_function (option) fine_snapshot_loop ::
  "(addr \<rightharpoonup> node) \<Rightarrow> addr option \<Rightarrow> int list \<Rightarrow> int list option"
where
  "fine_snapshot_loop h cur out =
     (case cur of
        None \<Rightarrow> Some out
      | Some c \<Rightarrow>
          (case h c of
             None \<Rightarrow> None
           | Some cn \<Rightarrow> fine_snapshot_loop h (nxt cn) (out @ [val cn])))"

declare fine_snapshot_loop.simps [code]

definition fine_snapshot :: "node memory \<Rightarrow> int list option" where
  "fine_snapshot s = do { hn \<leftarrow> heap s (head s); fine_snapshot_loop (heap s) (nxt hn) [] }"

section \<open>MarkedList: optimistic traversal with marking\<close>

definition MarkedList :: "mnode memory" where
  "MarkedList =
     \<lparr>heap = [0 \<mapsto> \<lparr>val = - 1, nxt = None, removed = False\<rparr>], head = 0, brk = 1, held = {}\<rparr>"

text \<open>
  \<^verbatim>\<open>return (!pred->removed && !(curr && curr->removed) && pred->next == curr);\<close>
  with the short-circuit order of \<^verbatim>\<open>&&\<close>: \<open>cur\<close> is read only when \<open>pred\<close> is not marked.
\<close>

definition validate :: "(addr \<rightharpoonup> mnode) \<Rightarrow> addr \<Rightarrow> addr option \<Rightarrow> bool option" where
  "validate h pred cur =
     (case h pred of
        None \<Rightarrow> None
      | Some pn \<Rightarrow>
          if removed pn then Some False
          else
            (case cur of
               None \<Rightarrow> Some (nxt pn = cur)
             | Some c \<Rightarrow>
                 (case h c of
                    None \<Rightarrow> None
                  | Some cn \<Rightarrow> if removed cn then Some False else Some (nxt pn = cur))))"

text \<open>Step (1) of the three methods: the traversal without locks.\<close>

partial_function (option) marked_search ::
  "int \<Rightarrow> (addr \<rightharpoonup> mnode) \<Rightarrow> addr \<Rightarrow> addr option \<Rightarrow> (addr \<times> addr option) option"
where
  "marked_search v h pred cur =
     (case cur of
        None \<Rightarrow> Some (pred, None)
      | Some c \<Rightarrow>
          (case h c of
             None \<Rightarrow> None
           | Some cn \<Rightarrow>
               if val cn < v then marked_search v h c (nxt cn)
               else Some (pred, cur)))"

declare marked_search.simps [code]

text \<open>Steps (1) to (3): traverse, lock \<open>pred\<close>, lock \<open>cur\<close> when it is not null.\<close>

definition marked_locate ::
  "mnode memory \<Rightarrow> int \<Rightarrow> (mnode memory \<times> addr \<times> addr option) option"
where
  "marked_locate s v =
     do {
       hn \<leftarrow> heap s (head s);
       (pred, cur) \<leftarrow> marked_search v (heap s) (head s) (nxt hn);
       s1 \<leftarrow> lock s pred;
       s2 \<leftarrow> lock_opt s1 cur;
       Some (s2, pred, cur)
     }"

text \<open>
  One pass through the body of \<^verbatim>\<open>while (true)\<close>. \<open>Retry\<close> is \<^verbatim>\<open>continue\<close>: the locks of this
  pass are released and the loop starts again; \<open>Return\<close> leaves the method.
\<close>

datatype 'a attempt = Retry "mnode memory" | Return 'a

definition marked_insert_attempt :: "mnode memory \<Rightarrow> int \<Rightarrow> mnode memory attempt option" where
  "marked_insert_attempt s v =
     do {
       (s1, pred, cur) \<leftarrow> marked_locate s v;
       ok \<leftarrow> validate (heap s1) pred cur;
       if \<not> ok then Some (Retry (release s1 pred cur))
       else
         do {
           let newNode = brk s1;
           let s2 = s1\<lparr>heap := (heap s1)(newNode \<mapsto> \<lparr>val = v, nxt = cur, removed = False\<rparr>),
                       brk := Suc newNode\<rparr>;
           pn \<leftarrow> heap s2 pred;
           let s3 = s2\<lparr>heap := (heap s2)(pred \<mapsto> pn\<lparr>nxt := Some newNode\<rparr>)\<rparr>;
           Some (Return (release s3 pred cur))
         }
     }"

partial_function (option) marked_insert :: "mnode memory \<Rightarrow> int \<Rightarrow> mnode memory option" where
  "marked_insert s v =
     (case marked_insert_attempt s v of
        None \<Rightarrow> None
      | Some (Retry s') \<Rightarrow> marked_insert s' v
      | Some (Return r) \<Rightarrow> Some r)"

declare marked_insert.simps [code]

text \<open>
  Step (5) of \<^verbatim>\<open>remove\<close>, \<^verbatim>\<open>curr->removed = true\<close>, and step (6),
  \<^verbatim>\<open>pred->next = curr->next\<close>, as two stores in the order of the source.
\<close>

definition mark_removed :: "mnode memory \<Rightarrow> addr \<Rightarrow> mnode memory option" where
  "mark_removed s c =
     do { cn \<leftarrow> heap s c; Some (s\<lparr>heap := (heap s)(c \<mapsto> cn\<lparr>removed := True\<rparr>)\<rparr>) }"

definition unlink :: "mnode memory \<Rightarrow> addr \<Rightarrow> addr \<Rightarrow> mnode memory option" where
  "unlink s pred c =
     do {
       cn \<leftarrow> heap s c;
       pn \<leftarrow> heap s pred;
       Some (s\<lparr>heap := (heap s)(pred \<mapsto> pn\<lparr>nxt := nxt cn\<rparr>)\<rparr>)
     }"

text \<open>
  One pass through the body of \<^verbatim>\<open>while (true)\<close> in \<^verbatim>\<open>remove\<close>. Its two stores go to different
  fields, so the memory at the end of the pass is the same whichever of them comes first.
  The pass therefore returns, next to its outcome, the memory as it is after each store to a
  node, in the order in which the source executes the stores: after step (5) and after
  step (6). A pass that stores nothing returns the empty list.
\<close>

definition marked_remove_attempt_traced ::
  "mnode memory \<Rightarrow> int \<Rightarrow> ((mnode memory \<times> bool) attempt \<times> mnode memory list) option"
where
  "marked_remove_attempt_traced s v =
     do {
       (s1, pred, cur) \<leftarrow> marked_locate s v;
       ok \<leftarrow> validate (heap s1) pred cur;
       if \<not> ok then Some (Retry (release s1 pred cur), [])
       else
         (case cur of
            None \<Rightarrow> Some (Return (release s1 pred cur, False), [])
          | Some c \<Rightarrow>
              do {
                cn \<leftarrow> heap s1 c;
                if val cn \<noteq> v then Some (Return (release s1 pred cur, False), [])
                else
                  do {
                    s2 \<leftarrow> mark_removed s1 c;
                    s3 \<leftarrow> unlink s2 pred c;
                    Some (Return (release s3 pred cur, True), [s2, s3])
                  }
              })
     }"

text \<open>The outcome of the pass, without the memories in between.\<close>

definition marked_remove_attempt ::
  "mnode memory \<Rightarrow> int \<Rightarrow> (mnode memory \<times> bool) attempt option"
where
  "marked_remove_attempt s v = map_option fst (marked_remove_attempt_traced s v)"

partial_function (option) marked_remove ::
  "mnode memory \<Rightarrow> int \<Rightarrow> (mnode memory \<times> bool) option"
where
  "marked_remove s v =
     (case marked_remove_attempt s v of
        None \<Rightarrow> None
      | Some (Retry s') \<Rightarrow> marked_remove s' v
      | Some (Return r) \<Rightarrow> Some r)"

declare marked_remove.simps [code]

definition marked_contains_attempt ::
  "mnode memory \<Rightarrow> int \<Rightarrow> (mnode memory \<times> bool) attempt option"
where
  "marked_contains_attempt s v =
     do {
       (s1, pred, cur) \<leftarrow> marked_locate s v;
       ok \<leftarrow> validate (heap s1) pred cur;
       if \<not> ok then Some (Retry (release s1 pred cur))
       else
         do {
           found \<leftarrow> (case cur of
                       None \<Rightarrow> Some False
                     | Some c \<Rightarrow>
                         do { cn \<leftarrow> heap s1 c; Some (\<not> removed cn \<and> val cn = v) });
           Some (Return (release s1 pred cur, found))
         }
     }"

partial_function (option) marked_contains ::
  "mnode memory \<Rightarrow> int \<Rightarrow> (mnode memory \<times> bool) option"
where
  "marked_contains s v =
     (case marked_contains_attempt s v of
        None \<Rightarrow> None
      | Some (Retry s') \<Rightarrow> marked_contains s' v
      | Some (Return r) \<Rightarrow> Some r)"

declare marked_contains.simps [code]

text \<open>\<^verbatim>\<open>printList\<close>: \<open>out\<close> is what has been written to \<^verbatim>\<open>std::cout\<close> so far.\<close>

partial_function (option) printList_loop ::
  "(addr \<rightharpoonup> mnode) \<Rightarrow> addr option \<Rightarrow> int list \<Rightarrow> int list option"
where
  "printList_loop h cur out =
     (case cur of
        None \<Rightarrow> Some out
      | Some c \<Rightarrow>
          (case h c of
             None \<Rightarrow> None
           | Some cn \<Rightarrow> printList_loop h (nxt cn) (if \<not> removed cn then out @ [val cn] else out)))"

declare printList_loop.simps [code]

definition printList :: "mnode memory \<Rightarrow> int list option" where
  "printList s = do { hn \<leftarrow> heap s (head s); printList_loop (heap s) (nxt hn) [] }"

section \<open>Sequences of operations run by one thread\<close>

datatype op = Insert int | Remove int | Contains int

datatype res = Done | Bool bool

fun fine_step :: "node memory \<Rightarrow> op \<Rightarrow> (node memory \<times> res) option" where
  "fine_step s (Insert v) = map_option (\<lambda>s'. (s', Done)) (fine_insert s v)"
| "fine_step s (Remove v) = map_option (\<lambda>(s', b). (s', Bool b)) (fine_remove s v)"
| "fine_step s (Contains v) = map_option (\<lambda>(s', b). (s', Bool b)) (fine_contains s v)"

fun marked_step :: "mnode memory \<Rightarrow> op \<Rightarrow> (mnode memory \<times> res) option" where
  "marked_step s (Insert v) = map_option (\<lambda>s'. (s', Done)) (marked_insert s v)"
| "marked_step s (Remove v) = map_option (\<lambda>(s', b). (s', Bool b)) (marked_remove s v)"
| "marked_step s (Contains v) = map_option (\<lambda>(s', b). (s', Bool b)) (marked_contains s v)"

text \<open>Running a sequence gives the final memory and the result of every call, in order.\<close>

fun run :: "('s \<Rightarrow> op \<Rightarrow> ('s \<times> res) option) \<Rightarrow> 's \<Rightarrow> op list \<Rightarrow> ('s \<times> res list) option" where
  "run step s [] = Some (s, [])"
| "run step s (x # xs) =
     (case step s x of
        None \<Rightarrow> None
      | Some (s', r) \<Rightarrow>
          (case run step s' xs of
             None \<Rightarrow> None
           | Some (s'', rs) \<Rightarrow> Some (s'', r # rs)))"

section \<open>The chain in the heap\<close>

text \<open>
  \<open>lseg h p cs q\<close>: following \<^verbatim>\<open>next\<close> from pointer \<open>p\<close> visits exactly the nodes listed in
  \<open>cs\<close>, each with its address and the value it holds, and arrives at pointer \<open>q\<close>.
\<close>

fun lseg :: "(addr \<rightharpoonup> 'a node_scheme) \<Rightarrow> addr option \<Rightarrow> (addr \<times> int) list \<Rightarrow> addr option \<Rightarrow> bool"
where
  "lseg h p [] q = (p = q)"
| "lseg h p (c # cs) q =
     (p = Some (fst c) \<and>
      (case h (fst c) of
         None \<Rightarrow> False
       | Some n \<Rightarrow> val n = snd c \<and> lseg h (nxt n) cs q))"

text \<open>
  The representation invariant shared by the two classes: the sentinel at \<open>head s\<close> holds
  \<open>- 1\<close>, the chain behind it is \<open>cs\<close> and ends in \<^verbatim>\<open>nullptr\<close>, the values of \<open>cs\<close> ascend, the
  allocator's next address lies above every allocated node, and no mutex is locked.
\<close>

definition chain_inv :: "'a node_scheme memory \<Rightarrow> (addr \<times> int) list \<Rightarrow> bool" where
  "chain_inv s cs =
     (lseg (heap s) (Some (head s)) ((head s, - 1) # cs) None \<and>
      sorted (map snd cs) \<and>
      (\<forall>a \<in> dom (heap s). a < brk s) \<and>
      held s = {})"

text \<open>FineGrainedList frees what it unlinks: the allocated nodes are those of the chain.\<close>

definition fine_inv :: "node memory \<Rightarrow> (addr \<times> int) list \<Rightarrow> bool" where
  "fine_inv s cs = (chain_inv s cs \<and> dom (heap s) = insert (head s) (fst ` set cs))"

text \<open>MarkedList keeps what it unlinks: no node of the chain carries the mark.\<close>

definition marked_inv :: "mnode memory \<Rightarrow> (addr \<times> int) list \<Rightarrow> bool" where
  "marked_inv s cs =
     (chain_inv s cs \<and>
      (\<forall>a \<in> insert (head s) (fst ` set cs).
         case heap s a of None \<Rightarrow> False | Some n \<Rightarrow> \<not> removed n))"

text \<open>Where a traversal for \<open>v\<close> stops in the chain \<open>cs\<close>.\<close>

definition below :: "int \<Rightarrow> (addr \<times> int) list \<Rightarrow> (addr \<times> int) list" where
  "below v cs = takeWhile (\<lambda>c. snd c < v) cs"

definition upward :: "int \<Rightarrow> (addr \<times> int) list \<Rightarrow> (addr \<times> int) list" where
  "upward v cs = dropWhile (\<lambda>c. snd c < v) cs"

definition ptr :: "(addr \<times> int) list \<Rightarrow> addr option" where
  "ptr cs = (case cs of [] \<Rightarrow> None | c # _ \<Rightarrow> Some (fst c))"

definition pred_of :: "addr \<Rightarrow> int \<Rightarrow> (addr \<times> int) list \<Rightarrow> addr" where
  "pred_of hd_addr v cs = last (hd_addr # map fst (below v cs))"

text \<open>
  The abstract contract in the spec's words: a sorted collection of integers with
  duplicates, \<^verbatim>\<open>insert\<close> always succeeding, \<^verbatim>\<open>remove\<close> taking one matching element away and
  reporting whether there was one, \<^verbatim>\<open>contains\<close> reporting membership.
\<close>

fun set_step :: "int list \<Rightarrow> op \<Rightarrow> int list \<times> res" where
  "set_step xs (Insert v) = (insort v xs, Done)"
| "set_step xs (Remove v) = (remove1 v xs, Bool (v \<in> set xs))"
| "set_step xs (Contains v) = (xs, Bool (v \<in> set xs))"

fun set_run :: "int list \<Rightarrow> op list \<Rightarrow> int list \<times> res list" where
  "set_run xs [] = (xs, [])"
| "set_run xs (x # ops) =
     (case set_step xs x of
        (xs', r) \<Rightarrow> (case set_run xs' ops of (xs'', rs) \<Rightarrow> (xs'', r # rs)))"

text \<open>
  How often \<^verbatim>\<open>insert(v)\<close> was called in a sequence, and how often \<^verbatim>\<open>remove(v)\<close> returned
  true in it, given the results of its calls.
\<close>

definition insert_calls :: "int \<Rightarrow> op list \<Rightarrow> nat" where
  "insert_calls v ops = length (filter (\<lambda>x. x = Insert v) ops)"

definition successful_removes :: "int \<Rightarrow> op list \<Rightarrow> res list \<Rightarrow> nat" where
  "successful_removes v ops rs =
     length (filter (\<lambda>(x, r). x = Remove v \<and> r = Bool True) (zip ops rs))"

text \<open>
  The chain read from the sentinel itself instead of from its successor: the loops of the
  two snapshots, started at \<open>head\<close>.
\<close>

definition fine_chain :: "node memory \<Rightarrow> int list option" where
  "fine_chain s = fine_snapshot_loop (heap s) (Some (head s)) []"

definition marked_chain :: "mnode memory \<Rightarrow> int list option" where
  "marked_chain s = printList_loop (heap s) (Some (head s)) []"

text \<open>
  The two traversals with a bound on how often the loop body may run: the result is \<open>None\<close>
  also when the body would have to run once more than the bound allows.
\<close>

primrec fine_loop_fuel ::
  "nat \<Rightarrow> int \<Rightarrow> node memory \<Rightarrow> addr \<Rightarrow> addr option \<Rightarrow> (node memory \<times> addr \<times> addr option) option"
where
  "fine_loop_fuel 0 v s pred cur =
     (case cur of
        None \<Rightarrow> Some (s, pred, None)
      | Some c \<Rightarrow>
          (case heap s c of
             None \<Rightarrow> None
           | Some cn \<Rightarrow> if val cn < v then None else Some (s, pred, cur)))"
| "fine_loop_fuel (Suc n) v s pred cur =
     (case cur of
        None \<Rightarrow> Some (s, pred, None)
      | Some c \<Rightarrow>
          (case heap s c of
             None \<Rightarrow> None
           | Some cn \<Rightarrow>
               if val cn < v then
                 (case lock_opt (unlock s pred) (nxt cn) of
                    None \<Rightarrow> None
                  | Some s' \<Rightarrow> fine_loop_fuel n v s' c (nxt cn))
               else Some (s, pred, cur)))"

definition fine_locate_fuel ::
  "nat \<Rightarrow> node memory \<Rightarrow> int \<Rightarrow> (node memory \<times> addr \<times> addr option) option"
where
  "fine_locate_fuel n s v =
     do {
       s1 \<leftarrow> lock s (head s);
       hn \<leftarrow> heap s1 (head s1);
       s2 \<leftarrow> lock_opt s1 (nxt hn);
       fine_loop_fuel n v s2 (head s2) (nxt hn)
     }"

primrec marked_search_fuel ::
  "nat \<Rightarrow> int \<Rightarrow> (addr \<rightharpoonup> mnode) \<Rightarrow> addr \<Rightarrow> addr option \<Rightarrow> (addr \<times> addr option) option"
where
  "marked_search_fuel 0 v h pred cur =
     (case cur of
        None \<Rightarrow> Some (pred, None)
      | Some c \<Rightarrow>
          (case h c of
             None \<Rightarrow> None
           | Some cn \<Rightarrow> if val cn < v then None else Some (pred, cur)))"
| "marked_search_fuel (Suc n) v h pred cur =
     (case cur of
        None \<Rightarrow> Some (pred, None)
      | Some c \<Rightarrow>
          (case h c of
             None \<Rightarrow> None
           | Some cn \<Rightarrow>
               if val cn < v then marked_search_fuel n v h c (nxt cn)
               else Some (pred, cur)))"

definition marked_locate_fuel ::
  "nat \<Rightarrow> mnode memory \<Rightarrow> int \<Rightarrow> (mnode memory \<times> addr \<times> addr option) option"
where
  "marked_locate_fuel n s v =
     do {
       hn \<leftarrow> heap s (head s);
       (pred, cur) \<leftarrow> marked_search_fuel n v (heap s) (head s) (nxt hn);
       s1 \<leftarrow> lock s pred;
       s2 \<leftarrow> lock_opt s1 cur;
       Some (s2, pred, cur)
     }"

section \<open>Lemmas about chains\<close>

lemma lseg_append:
  "lseg h p (xs @ ys) q = (\<exists>r. lseg h p xs r \<and> lseg h r ys q)"
  by (induction xs arbitrary: p) (auto split: option.splits)

lemma lseg_upd_other:
  "a \<notin> fst ` set cs \<Longrightarrow> lseg (h(a := y)) p cs q = lseg h p cs q"
  by (induction cs arbitrary: p) (auto split: option.splits)

lemma lseg_unique:
  "lseg h p cs None \<Longrightarrow> lseg h p cs' None \<Longrightarrow> cs = cs'"
proof (induction cs arbitrary: p cs')
  case Nil
  then show ?case by (cases cs') auto
next
  case (Cons c cs)
  then show ?case
    by (cases cs') (auto split: option.splits simp: prod_eq_iff)
qed

lemma lseg_cell_not_behind:
  assumes "h a = Some n" and "lseg h (nxt n) cs None"
  shows "a \<notin> fst ` set cs"
proof
  assume "a \<in> fst ` set cs"
  then obtain y where "(a, y) \<in> set cs" by auto
  then obtain us vs where cs: "cs = us @ (a, y) # vs"
    by (auto simp: in_set_conv_decomp)
  with assms have "lseg h (nxt n) vs None"
    by (auto simp: lseg_append)
  with assms(2) have "cs = vs" by (rule lseg_unique)
  with cs show False by simp
qed

lemma lseg_distinct:
  "lseg h p cs None \<Longrightarrow> distinct (map fst cs)"
proof (induction cs arbitrary: p)
  case Nil
  then show ?case by simp
next
  case (Cons c cs)
  then show ?case
    by (auto split: option.splits dest: lseg_cell_not_behind)
qed

lemma insort_below_upward:
  "insort v (map snd cs) = map snd (below v cs) @ v # map snd (upward v cs)"
  by (induction cs) (auto simp: below_def upward_def)

lemma below_upward: "below v cs @ upward v cs = cs"
  by (simp add: below_def upward_def)

lemma sorted_upward_hd:
  "sorted (map snd cs) \<Longrightarrow> upward v cs = c # bs \<Longrightarrow> snd c \<noteq> v \<Longrightarrow> v \<notin> snd ` set cs"
  by (induction cs) (auto simp: upward_def split: if_splits)

lemma upward_Nil_notin:
  "upward v cs = [] \<Longrightarrow> v \<notin> snd ` set cs"
  by (induction cs) (auto simp: upward_def split: if_splits)

lemma remove1_below_upward:
  "upward v cs = c # bs \<Longrightarrow> snd c = v \<Longrightarrow>
   remove1 v (map snd cs) = map snd (below v cs @ bs)"
  by (induction cs) (auto simp: upward_def below_def split: if_splits)

lemma marked_search_lseg:
  "lseg h cur cs None \<Longrightarrow>
   marked_search v h pred cur = Some (last (pred # map fst (below v cs)), ptr (upward v cs))"
proof (induction cs arbitrary: pred cur)
  case Nil
  then show ?case by (subst marked_search.simps) (simp add: below_def upward_def ptr_def)
next
  case (Cons c cs)
  then show ?case
    by (subst marked_search.simps) (auto simp: below_def upward_def ptr_def split: option.splits)
qed

section \<open>The traversal of FineGrainedList\<close>

lemma held_cong: "A = B \<Longrightarrow> s\<lparr>held := A\<rparr> = s\<lparr>held := B\<rparr>"
  by simp

lemma fine_loop_lseg:
  "lseg (heap s) cur cs None \<Longrightarrow> pred \<notin> fst ` set cs \<Longrightarrow>
   held s = insert pred (set_option cur) \<Longrightarrow>
   fine_loop v s pred cur =
     Some (s\<lparr>held := insert (last (pred # map fst (below v cs))) (set_option (ptr (upward v cs)))\<rparr>,
           last (pred # map fst (below v cs)), ptr (upward v cs))"
proof (induction cs arbitrary: s pred cur)
  case Nil
  then show ?case
    by (subst fine_loop.simps) (simp add: below_def upward_def ptr_def)
next
  case (Cons c cs)
  obtain a x where c: "c = (a, x)" by (cases c)
  from Cons.prems c obtain n where cur: "cur = Some a" and n: "heap s a = Some n" "val n = x"
    and tl: "lseg (heap s) (nxt n) cs None"
    by (auto split: option.splits)
  from n(1) tl have a_notin: "a \<notin> fst ` set cs" by (rule lseg_cell_not_behind)
  show ?case
  proof (cases "x < v")
    case False
    with Cons.prems c cur n show ?thesis
      by (subst fine_loop.simps) (simp add: below_def upward_def ptr_def)
  next
    case True
    define s' where "s' = s\<lparr>held := insert a (set_option (nxt n))\<rparr>"
    have nxt_alloc: "\<And>b. nxt n = Some b \<Longrightarrow> heap s b \<noteq> None \<and> b \<noteq> a"
      using tl a_notin by (cases cs) (auto split: option.splits)
    have pa: "pred \<noteq> a" using Cons.prems(2) c by auto
    have lk: "lock_opt (unlock s pred) (nxt n) = Some s'"
      using Cons.prems(3) cur pa nxt_alloc
      by (cases "nxt n") (auto simp: lock_opt_def lock_def unlock_def s'_def intro!: held_cong)
    have "fine_loop v s' a (nxt n) =
      Some (s'\<lparr>held := insert (last (a # map fst (below v cs))) (set_option (ptr (upward v cs)))\<rparr>,
           last (a # map fst (below v cs)), ptr (upward v cs))"
      by (rule Cons.IH) (use tl a_notin in \<open>auto simp: s'_def\<close>)
    with True c cur n lk show ?thesis
      by (subst fine_loop.simps) (simp add: below_def upward_def s'_def)
  qed
qed

lemma chain_inv_headD:
  assumes "chain_inv s cs"
  shows "\<exists>hn. heap s (head s) = Some hn \<and> val hn = - 1 \<and> lseg (heap s) (nxt hn) cs None
           \<and> head s \<notin> fst ` set cs"
  using assms by (auto simp: chain_inv_def split: option.splits dest: lseg_cell_not_behind)

lemma fine_locate_inv:
  assumes "chain_inv s cs"
  shows "fine_locate s v =
     Some (s\<lparr>held := insert (pred_of (head s) v cs) (set_option (ptr (upward v cs)))\<rparr>,
           pred_of (head s) v cs, ptr (upward v cs))"
proof -
  from chain_inv_headD[OF assms] obtain hn where hn: "heap s (head s) = Some hn"
    and tl: "lseg (heap s) (nxt hn) cs None" and hd: "head s \<notin> fst ` set cs" by blast
  from assms have held: "held s = {}" by (simp add: chain_inv_def)
  define s2 where "s2 = s\<lparr>held := insert (head s) (set_option (nxt hn))\<rparr>"
  have neq: "\<And>b. nxt hn = Some b \<Longrightarrow> heap s b \<noteq> None \<and> b \<noteq> head s"
    using tl hd by (cases cs) (auto split: option.splits)
  have l2: "lock_opt (s\<lparr>held := {head s}\<rparr>) (nxt hn) = Some s2"
    using neq by (cases "nxt hn") (auto simp: lock_opt_def lock_def s2_def intro!: held_cong)
  have "fine_loop v s2 (head s) (nxt hn) =
     Some (s2\<lparr>held := insert (last (head s # map fst (below v cs))) (set_option (ptr (upward v cs)))\<rparr>,
           last (head s # map fst (below v cs)), ptr (upward v cs))"
    by (rule fine_loop_lseg) (use tl hd in \<open>auto simp: s2_def\<close>)
  then show ?thesis
    using hn held l2 by (simp add: fine_locate_def lock_def pred_of_def s2_def)
qed

section \<open>Splicing a node in and out\<close>

lemma lseg_ptr: "lseg h p cs None \<Longrightarrow> p = ptr cs"
  by (cases cs) (auto simp: ptr_def)

lemma lseg_alloc: "lseg h p cs q \<Longrightarrow> c \<in> set cs \<Longrightarrow> h (fst c) \<noteq> None"
  by (induction cs arbitrary: p) (auto split: option.splits)

lemma lseg_splice_in:
  assumes seg: "lseg h p (pre @ (pr, x) # post) None"
    and fresh: "h a = None"
    and N: "val N = v" "nxt N = ptr post"
  shows "\<exists>pn. h pr = Some pn \<and> nxt pn = ptr post \<and>
          lseg (h(a \<mapsto> N, pr \<mapsto> pn\<lparr>nxt := Some a\<rparr>)) p (pre @ (pr, x) # (a, v) # post) None"
proof -
  from seg obtain pn where pre: "lseg h p pre (Some pr)" and pn: "h pr = Some pn" "val pn = x"
    and post: "lseg h (nxt pn) post None"
    by (auto simp: lseg_append split: option.splits)
  from lseg_distinct[OF seg] have pr_pre: "pr \<notin> fst ` set pre" and pr_post: "pr \<notin> fst ` set post"
    by auto
  from fresh lseg_alloc[OF seg] have a_pre: "a \<notin> fst ` set pre" and a_post: "a \<notin> fst ` set post"
    and a_pr: "a \<noteq> pr"
    by fastforce+
  let ?h = "h(a \<mapsto> N, pr \<mapsto> pn\<lparr>nxt := Some a\<rparr>)"
  have 1: "lseg ?h p pre (Some pr)"
    using pre pr_pre a_pre by (simp add: lseg_upd_other)
  have 2: "lseg ?h (nxt N) post None"
    using post pr_post a_post lseg_ptr[OF post] N by (simp add: lseg_upd_other)
  from 1 2 pn a_pr N lseg_ptr[OF post] show ?thesis
    by (auto simp: lseg_append)
qed

lemma lseg_splice_out:
  assumes seg: "lseg h p (pre @ (pr, x) # (c, y) # post) None"
  shows "\<exists>pn cn. h pr = Some pn \<and> h c = Some cn \<and> val cn = y \<and> nxt pn = Some c \<and> pr \<noteq> c \<and>
          c \<notin> fst ` set pre \<and> c \<notin> fst ` set post \<and>
          (\<forall>z. lseg (h(c := z, pr \<mapsto> pn\<lparr>nxt := nxt cn\<rparr>)) p (pre @ (pr, x) # post) None)"
proof -
  from seg obtain pn cn where pre: "lseg h p pre (Some pr)" and pn: "h pr = Some pn" "val pn = x"
    "nxt pn = Some c" and cn: "h c = Some cn" "val cn = y" and post: "lseg h (nxt cn) post None"
    by (auto simp: lseg_append split: option.splits)
  from lseg_distinct[OF seg] have d: "pr \<notin> fst ` set pre" "pr \<notin> fst ` set post" "pr \<noteq> c"
    "c \<notin> fst ` set pre" "c \<notin> fst ` set post"
    by auto
  have "lseg (h(c := z, pr \<mapsto> pn\<lparr>nxt := nxt cn\<rparr>)) p (pre @ (pr, x) # post) None" for z
    using pre post pn d by (auto simp: lseg_append lseg_upd_other)
  with pn cn d show ?thesis by blast
qed

lemma pred_of_split:
  "\<exists>pre x. (hd_addr, - 1) # below v cs = pre @ [(pred_of hd_addr v cs, x)]"
proof -
  let ?xs = "(hd_addr, - 1) # below v cs"
  have "?xs = butlast ?xs @ [last ?xs]" by (rule append_butlast_last_id[symmetric]) simp
  moreover have "fst (last ?xs) = pred_of hd_addr v cs"
    unfolding pred_of_def by (subst last_map[symmetric]) simp_all
  ultimately show ?thesis by (metis prod.collapse)
qed

lemma chain_split:
  assumes "chain_inv s cs"
  shows "\<exists>pre x. (head s, - 1) # below v cs = pre @ [(pred_of (head s) v cs, x)] \<and>
           lseg (heap s) (Some (head s)) (pre @ (pred_of (head s) v cs, x) # upward v cs) None"
proof -
  from pred_of_split obtain pre x
    where sp: "(head s, - 1) # below v cs = pre @ [(pred_of (head s) v cs, x)]" by blast
  have "(head s, - 1) # cs = ((head s, - 1) # below v cs) @ upward v cs"
    by (simp add: below_def upward_def)
  with sp have "(head s, - 1) # cs = pre @ (pred_of (head s) v cs, x) # upward v cs" by simp
  with assms sp show ?thesis unfolding chain_inv_def by metis
qed

section \<open>FineGrainedList: effect of the methods\<close>

lemma release_eq: "release s pr cur = s\<lparr>held := held s - set_option cur - {pr}\<rparr>"
  by (cases cur) (simp_all add: release_def unlock_def)

lemma held_empty_id: "held s = {} \<Longrightarrow> s\<lparr>held := {}\<rparr> = s"
  by (cases s) simp

lemma release_locate:
  "held s = {} \<Longrightarrow>
   release (s\<lparr>held := insert pr (set_option cur)\<rparr>) pr cur = s"
proof -
  assume h: "held s = {}"
  have "insert pr (set_option cur) - set_option cur - {pr} = {}" by auto
  with h show ?thesis by (simp add: release_eq held_empty_id)
qed

lemma release_heap_upd:
  "release (s\<lparr>heap := h\<rparr>) pr cur = (release s pr cur)\<lparr>heap := h\<rparr>"
  "release (s\<lparr>brk := b\<rparr>) pr cur = (release s pr cur)\<lparr>brk := b\<rparr>"
  by (cases cur; simp add: release_def unlock_def)+

lemma chain_inv_pred_alloc:
  assumes "chain_inv s cs"
  shows "\<exists>pn. heap s (pred_of (head s) v cs) = Some pn \<and> pred_of (head s) v cs < brk s"
proof -
  from chain_split[OF assms] obtain pre x where
    "lseg (heap s) (Some (head s)) (pre @ (pred_of (head s) v cs, x) # upward v cs) None" by blast
  from lseg_alloc[OF this, of "(pred_of (head s) v cs, x)"]
  obtain pn where "heap s (pred_of (head s) v cs) = Some pn" by auto
  with assms show ?thesis by (auto simp: chain_inv_def)
qed

lemma fine_insert_result:
  assumes "chain_inv s cs"
  shows "\<exists>pn. heap s (pred_of (head s) v cs) = Some pn \<and>
     fine_insert s v =
       Some (s\<lparr>heap := (heap s)(brk s \<mapsto> \<lparr>val = v, nxt = ptr (upward v cs)\<rparr>,
                                  pred_of (head s) v cs \<mapsto> pn\<lparr>nxt := Some (brk s)\<rparr>),
               brk := Suc (brk s)\<rparr>)"
proof -
  from chain_inv_pred_alloc[OF assms] obtain pn where
    pn: "heap s (pred_of (head s) v cs) = Some pn" and lt: "pred_of (head s) v cs < brk s" by blast
  from assms have held: "held s = {}" by (simp add: chain_inv_def)
  show ?thesis
    using pn lt held
    by (simp add: fine_insert_def fine_locate_inv[OF assms] release_heap_upd release_locate Let_def)
qed

lemma chain_inv_insert:
  assumes inv: "chain_inv s cs"
    and pn: "heap s (pred_of (head s) v cs) = Some pn"
    and N: "val N = v" "nxt N = ptr (upward v cs)"
  shows "chain_inv (s\<lparr>heap := (heap s)(brk s \<mapsto> N, pred_of (head s) v cs \<mapsto> pn\<lparr>nxt := Some (brk s)\<rparr>),
               brk := Suc (brk s)\<rparr>) (below v cs @ (brk s, v) # upward v cs)"
proof -
  from chain_split[OF inv] obtain pre x where
    sp: "(head s, - 1) # below v cs = pre @ [(pred_of (head s) v cs, x)]" and
    seg: "lseg (heap s) (Some (head s)) (pre @ (pred_of (head s) v cs, x) # upward v cs) None"
    by blast
  from inv have fresh: "heap s (brk s) = None" by (auto simp: chain_inv_def)
  from lseg_splice_in[OF seg fresh N] pn
  have "lseg ((heap s)(brk s \<mapsto> N, pred_of (head s) v cs \<mapsto> pn\<lparr>nxt := Some (brk s)\<rparr>))
          (Some (head s)) (pre @ (pred_of (head s) v cs, x) # (brk s, v) # upward v cs) None"
    by auto
  moreover have "pre @ (pred_of (head s) v cs, x) # (brk s, v) # upward v cs
      = (head s, - 1) # below v cs @ (brk s, v) # upward v cs"
    using sp by (metis append_Cons append_Nil append_assoc)
  moreover have "sorted (map snd (below v cs @ (brk s, v) # upward v cs))"
    using inv insort_below_upward[of v cs, symmetric] by (simp add: chain_inv_def sorted_insort)
  moreover have "pred_of (head s) v cs \<in> dom (heap s)" using pn by blast
  ultimately show ?thesis
    using inv by (auto simp: chain_inv_def less_Suc_eq)
qed

lemma lseg_cell: "lseg h p cs q \<Longrightarrow> (c, y) \<in> set cs \<Longrightarrow> \<exists>n. h c = Some n \<and> val n = y"
  by (induction cs arbitrary: p) (auto split: option.splits)

lemma upward_subset: "set (upward v cs) \<subseteq> set cs"
  unfolding upward_def by (rule set_dropWhileD[THEN subsetI])

lemma chain_inv_cell:
  assumes "chain_inv s cs" and "(c, y) \<in> set cs"
  shows "\<exists>n. heap s c = Some n \<and> val n = y"
proof -
  from assms(1) have "lseg (heap s) (Some (head s)) ((head s, - 1) # cs) None"
    by (simp add: chain_inv_def)
  from lseg_cell[OF this, of c y] assms(2) show ?thesis by simp
qed

lemma sorted_present_upward:
  assumes "sorted (map snd cs)" and "v \<in> snd ` set cs"
  shows "\<exists>c bs. upward v cs = (c, v) # bs"
proof (cases "upward v cs")
  case Nil
  with assms(2) show ?thesis by (auto dest: upward_Nil_notin)
next
  case (Cons d bs)
  with assms have "snd d = v" by (auto dest: sorted_upward_hd)
  with Cons show ?thesis by (cases d) auto
qed

lemma absent_upward:
  assumes "v \<notin> snd ` set cs"
  shows "upward v cs = [] \<or> (\<exists>c y bs. upward v cs = (c, y) # bs \<and> y \<noteq> v \<and> (c, y) \<in> set cs)"
proof (cases "upward v cs")
  case Nil
  then show ?thesis by simp
next
  case (Cons d bs)
  then have "d \<in> set cs" using upward_subset[of v cs] by auto
  with assms Cons show ?thesis by (cases d) force
qed

lemma fine_remove_absent:
  assumes inv: "chain_inv s cs" and absent: "v \<notin> snd ` set cs"
  shows "fine_remove s v = Some (s, False)"
proof -
  from inv have held: "held s = {}" by (simp add: chain_inv_def)
  from absent_upward[OF absent] show ?thesis
  proof
    assume "upward v cs = []"
    with held show ?thesis
      by (simp add: fine_remove_def fine_locate_inv[OF inv] ptr_def release_locate[of s _ None, simplified])
  next
    assume "\<exists>c y bs. upward v cs = (c, y) # bs \<and> y \<noteq> v \<and> (c, y) \<in> set cs"
    then obtain c y bs where up: "upward v cs = (c, y) # bs" and neq: "y \<noteq> v"
      and mem: "(c, y) \<in> set cs" by blast
    from chain_inv_cell[OF inv mem] obtain cn where "heap s c = Some cn" "val cn = y" by blast
    with up neq held show ?thesis
      by (simp add: fine_remove_def fine_locate_inv[OF inv] ptr_def
            release_locate[of s _ "Some c", simplified])
  qed
qed

lemma chain_inv_unlink:
  assumes inv: "chain_inv s cs" and up: "upward v cs = (c, v) # bs"
  shows "\<exists>pn cn. heap s (pred_of (head s) v cs) = Some pn \<and> heap s c = Some cn \<and> val cn = v \<and>
           nxt pn = Some c \<and> pred_of (head s) v cs \<noteq> c \<and> head s \<noteq> c \<and>
           c \<notin> fst ` set (below v cs @ bs) \<and>
           (\<forall>z. chain_inv (s\<lparr>heap := (heap s)(c := z, pred_of (head s) v cs \<mapsto> pn\<lparr>nxt := nxt cn\<rparr>)\<rparr>)
                  (below v cs @ bs))"
proof -
  from chain_split[OF inv] up obtain pre x where
    sp: "(head s, - 1) # below v cs = pre @ [(pred_of (head s) v cs, x)]" and
    seg: "lseg (heap s) (Some (head s)) (pre @ (pred_of (head s) v cs, x) # (c, v) # bs) None"
    by metis
  from lseg_splice_out[OF seg] obtain pn cn where
    f: "heap s (pred_of (head s) v cs) = Some pn" "heap s c = Some cn" "val cn = v"
       "nxt pn = Some c" "pred_of (head s) v cs \<noteq> c" "c \<notin> fst ` set pre" "c \<notin> fst ` set bs"
    and new: "\<And>z. lseg ((heap s)(c := z, pred_of (head s) v cs \<mapsto> pn\<lparr>nxt := nxt cn\<rparr>))
                (Some (head s)) (pre @ (pred_of (head s) v cs, x) # bs) None"
    by blast
  have eq: "pre @ (pred_of (head s) v cs, x) # bs = (head s, - 1) # below v cs @ bs"
    using sp by (metis append_Cons append_Nil append_assoc)
  have c_out: "c \<notin> fst ` set ((head s, - 1) # below v cs)"
    using f(5,6) unfolding sp by auto
  have cs: "cs = below v cs @ (c, v) # bs"
    using up below_upward[of v cs] by simp
  have srt: "sorted (map snd (below v cs @ bs))"
  proof -
    from inv have "sorted (map snd cs)" by (simp add: chain_inv_def)
    then have "sorted (map snd (below v cs) @ v # map snd bs)" by (subst (asm) cs) simp
    then show ?thesis by (auto simp: sorted_append)
  qed
  have "chain_inv (s\<lparr>heap := (heap s)(c := z, pred_of (head s) v cs \<mapsto> pn\<lparr>nxt := nxt cn\<rparr>)\<rparr>)
          (below v cs @ bs)" for z
  proof -
    have "\<forall>a \<in> dom ((heap s)(c := z, pred_of (head s) v cs \<mapsto> pn\<lparr>nxt := nxt cn\<rparr>)). a < brk s"
      using inv f(1,2) by (auto simp: chain_inv_def split: if_splits)
    moreover from inv have "held s = {}" by (simp add: chain_inv_def)
    ultimately show ?thesis
      using new[of z] srt unfolding eq chain_inv_def by simp
  qed
  with f c_out show ?thesis by auto
qed

lemma fine_remove_present:
  assumes inv: "chain_inv s cs" and present: "v \<in> snd ` set cs"
  shows "\<exists>c bs pn cn. upward v cs = (c, v) # bs \<and>
           heap s (pred_of (head s) v cs) = Some pn \<and> heap s c = Some cn \<and>
           fine_remove s v =
             Some (s\<lparr>heap := (heap s)(pred_of (head s) v cs \<mapsto> pn\<lparr>nxt := nxt cn\<rparr>, c := None)\<rparr>, True)"
proof -
  from inv have held: "held s = {}" and srt: "sorted (map snd cs)" by (simp_all add: chain_inv_def)
  from sorted_present_upward[OF srt present] obtain c bs where up: "upward v cs = (c, v) # bs"
    by blast
  from chain_inv_unlink[OF inv up] obtain pn cn where
    f: "heap s (pred_of (head s) v cs) = Some pn" "heap s c = Some cn" "val cn = v"
       "pred_of (head s) v cs \<noteq> c" by blast
  have "insert (pred_of (head s) v cs) {c} - {c} - {pred_of (head s) v cs} = {}" by auto
  with up f held have "fine_remove s v =
      Some (s\<lparr>heap := (heap s)(pred_of (head s) v cs \<mapsto> pn\<lparr>nxt := nxt cn\<rparr>, c := None)\<rparr>, True)"
    by (simp add: fine_remove_def fine_locate_inv[OF inv] ptr_def unlock_def held_empty_id)
  with up f show ?thesis by blast
qed

lemma fine_contains_result:
  assumes inv: "chain_inv s cs"
  shows "fine_contains s v = Some (s, v \<in> snd ` set cs)"
proof (cases "v \<in> snd ` set cs")
  case True
  from inv have held: "held s = {}" and srt: "sorted (map snd cs)" by (simp_all add: chain_inv_def)
  from sorted_present_upward[OF srt True] obtain c bs where up: "upward v cs = (c, v) # bs"
    by blast
  then have "(c, v) \<in> set cs" using upward_subset[of v cs] by auto
  from chain_inv_cell[OF inv this] obtain cn where "heap s c = Some cn" "val cn = v" by blast
  with up held True show ?thesis
    by (simp add: fine_contains_def fine_locate_inv[OF inv] ptr_def
          release_locate[of s _ "Some c", simplified])
next
  case False
  from inv have held: "held s = {}" by (simp add: chain_inv_def)
  from absent_upward[OF False] show ?thesis
  proof
    assume "upward v cs = []"
    with held False show ?thesis
      by (simp add: fine_contains_def fine_locate_inv[OF inv] ptr_def
            release_locate[of s _ None, simplified])
  next
    assume "\<exists>c y bs. upward v cs = (c, y) # bs \<and> y \<noteq> v \<and> (c, y) \<in> set cs"
    then obtain c y bs where up: "upward v cs = (c, y) # bs" and neq: "y \<noteq> v"
      and mem: "(c, y) \<in> set cs" by blast
    from chain_inv_cell[OF inv mem] obtain cn where "heap s c = Some cn" "val cn = y" by blast
    with up neq held False show ?thesis
      by (simp add: fine_contains_def fine_locate_inv[OF inv] ptr_def
            release_locate[of s _ "Some c", simplified])
  qed
qed

section \<open>MarkedList: effect of the methods\<close>

lemma pred_of_mem: "pred_of hd_addr v cs \<in> insert hd_addr (fst ` set cs)"
proof -
  have "pred_of hd_addr v cs \<in> set (hd_addr # map fst (below v cs))"
    unfolding pred_of_def by (rule last_in_set) simp
  moreover have "set (below v cs) \<subseteq> set cs"
    unfolding below_def by (auto dest: set_takeWhileD)
  ultimately show ?thesis by auto
qed

lemma chain_inv_pred:
  assumes inv: "chain_inv s cs"
  shows "\<exists>pn. heap s (pred_of (head s) v cs) = Some pn \<and> nxt pn = ptr (upward v cs) \<and>
           (\<forall>c. ptr (upward v cs) = Some c \<longrightarrow>
              c \<noteq> pred_of (head s) v cs \<and> c \<in> fst ` set cs \<and> heap s c \<noteq> None)"
proof -
  from chain_split[OF inv] obtain pre x where
    seg: "lseg (heap s) (Some (head s)) (pre @ (pred_of (head s) v cs, x) # upward v cs) None"
    by blast
  then obtain pn where pn: "heap s (pred_of (head s) v cs) = Some pn"
    and post: "lseg (heap s) (nxt pn) (upward v cs) None"
    by (auto simp: lseg_append split: option.splits)
  have "c \<noteq> pred_of (head s) v cs \<and> c \<in> fst ` set cs \<and> heap s c \<noteq> None"
    if "ptr (upward v cs) = Some c" for c
  proof -
    from that obtain y bs where up: "upward v cs = (c, y) # bs"
      by (cases "upward v cs") (auto simp: ptr_def)
    with lseg_distinct[OF seg] have "c \<noteq> pred_of (head s) v cs" by auto
    moreover from up have "(c, y) \<in> set cs" using upward_subset[of v cs] by auto
    moreover from chain_inv_cell[OF inv this] have "heap s c \<noteq> None" by auto
    ultimately show ?thesis by force
  qed
  with pn lseg_ptr[OF post] show ?thesis by blast
qed

lemma marked_locate_inv:
  assumes inv: "chain_inv s cs"
  shows "marked_locate s v =
     Some (s\<lparr>held := insert (pred_of (head s) v cs) (set_option (ptr (upward v cs)))\<rparr>,
           pred_of (head s) v cs, ptr (upward v cs))"
proof -
  from chain_inv_headD[OF inv] obtain hn where hn: "heap s (head s) = Some hn"
    and tl: "lseg (heap s) (nxt hn) cs None" by blast
  from inv have held: "held s = {}" by (simp add: chain_inv_def)
  from chain_inv_pred[OF inv, of v] obtain pn where pn: "heap s (pred_of (head s) v cs) = Some pn"
    and cur: "\<And>c. ptr (upward v cs) = Some c \<Longrightarrow> c \<noteq> pred_of (head s) v cs \<and> heap s c \<noteq> None"
    by blast
  have "lock_opt (s\<lparr>held := {pred_of (head s) v cs}\<rparr>) (ptr (upward v cs)) =
      Some (s\<lparr>held := insert (pred_of (head s) v cs) (set_option (ptr (upward v cs)))\<rparr>)"
    using cur by (cases "ptr (upward v cs)") (auto simp: lock_opt_def lock_def intro!: held_cong)
  with hn held pn show ?thesis
    by (simp add: marked_locate_def marked_search_lseg[OF tl] lock_def pred_of_def)
qed

lemma validate_inv:
  assumes inv: "marked_inv s cs"
  shows "validate (heap s) (pred_of (head s) v cs) (ptr (upward v cs)) = Some True"
proof -
  from inv have ci: "chain_inv s cs" by (simp add: marked_inv_def)
  from chain_inv_pred[OF ci, of v] obtain pn where pn: "heap s (pred_of (head s) v cs) = Some pn"
    "nxt pn = ptr (upward v cs)"
    and cur: "\<And>c. ptr (upward v cs) = Some c \<Longrightarrow> c \<in> fst ` set cs" by blast
  from inv pred_of_mem[of "head s" v cs] pn have "\<not> removed pn"
    unfolding marked_inv_def by (auto split: option.splits)
  moreover have "\<exists>cn. heap s c = Some cn \<and> \<not> removed cn" if "ptr (upward v cs) = Some c" for c
    using cur[OF that] inv unfolding marked_inv_def by (auto split: option.splits)
  ultimately show ?thesis
    using pn by (cases "ptr (upward v cs)") (auto simp: validate_def)
qed

lemma marked_insert_attempt_result:
  assumes inv: "marked_inv s cs"
  shows "\<exists>pn. heap s (pred_of (head s) v cs) = Some pn \<and>
     marked_insert_attempt s v =
       Some (Return (s\<lparr>heap := (heap s)(brk s \<mapsto> \<lparr>val = v, nxt = ptr (upward v cs), removed = False\<rparr>,
                                  pred_of (head s) v cs \<mapsto> pn\<lparr>nxt := Some (brk s)\<rparr>),
               brk := Suc (brk s)\<rparr>))"
proof -
  from inv have ci: "chain_inv s cs" by (simp add: marked_inv_def)
  from chain_inv_pred_alloc[OF ci] obtain pn where
    pn: "heap s (pred_of (head s) v cs) = Some pn" and lt: "pred_of (head s) v cs < brk s" by blast
  from ci have held: "held s = {}" by (simp add: chain_inv_def)
  show ?thesis
    using pn lt held
    by (simp add: marked_insert_attempt_def marked_locate_inv[OF ci] validate_inv[OF inv]
          release_heap_upd release_locate Let_def)
qed

lemma marked_inv_insert:
  assumes inv: "marked_inv s cs"
    and pn: "heap s (pred_of (head s) v cs) = Some pn"
  shows "marked_inv (s\<lparr>heap := (heap s)(brk s \<mapsto> \<lparr>val = v, nxt = ptr (upward v cs), removed = False\<rparr>,
                                  pred_of (head s) v cs \<mapsto> pn\<lparr>nxt := Some (brk s)\<rparr>),
               brk := Suc (brk s)\<rparr>) (below v cs @ (brk s, v) # upward v cs)"
proof -
  from inv have ci: "chain_inv s cs" by (simp add: marked_inv_def)
  have "chain_inv (s\<lparr>heap := (heap s)(brk s \<mapsto> \<lparr>val = v, nxt = ptr (upward v cs), removed = False\<rparr>,
                                  pred_of (head s) v cs \<mapsto> pn\<lparr>nxt := Some (brk s)\<rparr>),
               brk := Suc (brk s)\<rparr>) (below v cs @ (brk s, v) # upward v cs)"
    by (rule chain_inv_insert[OF ci pn]) simp_all
  moreover have "fst ` set (below v cs @ (brk s, v) # upward v cs) = insert (brk s) (fst ` set cs)"
  proof -
    have "set cs = set (below v cs) \<union> set (upward v cs)"
      by (subst below_upward[of v cs, symmetric]) (simp only: set_append)
    then show ?thesis by auto
  qed
  moreover from inv pn have "\<not> removed pn"
    using pred_of_mem[of "head s" v cs] unfolding marked_inv_def by (auto split: option.splits)
  ultimately show ?thesis
    using inv unfolding marked_inv_def by (auto split: option.splits)
qed

lemma marked_remove_attempt_absent:
  assumes inv: "marked_inv s cs" and absent: "v \<notin> snd ` set cs"
  shows "marked_remove_attempt s v = Some (Return (s, False))"
proof -
  from inv have ci: "chain_inv s cs" by (simp add: marked_inv_def)
  from ci have held: "held s = {}" by (simp add: chain_inv_def)
  note val = validate_inv[OF inv, of v]
  from absent_upward[OF absent] show ?thesis
  proof
    assume up: "upward v cs = []"
    with val have "validate (heap s) (pred_of (head s) v cs) None = Some True"
      by (simp add: ptr_def)
    with up held show ?thesis
      by (simp add: marked_remove_attempt_def marked_remove_attempt_traced_def marked_locate_inv[OF ci] ptr_def
            release_locate[of s _ None, simplified])
  next
    assume "\<exists>c y bs. upward v cs = (c, y) # bs \<and> y \<noteq> v \<and> (c, y) \<in> set cs"
    then obtain c y bs where up: "upward v cs = (c, y) # bs" and neq: "y \<noteq> v"
      and mem: "(c, y) \<in> set cs" by blast
    from chain_inv_cell[OF ci mem] obtain cn where "heap s c = Some cn" "val cn = y" by blast
    moreover from up val have "validate (heap s) (pred_of (head s) v cs) (Some c) = Some True"
      by (simp add: ptr_def)
    ultimately show ?thesis
      using up neq held
      by (simp add: marked_remove_attempt_def marked_remove_attempt_traced_def marked_locate_inv[OF ci] ptr_def
            release_locate[of s _ "Some c", simplified])
  qed
qed

lemma marked_remove_attempt_present:
  assumes inv: "marked_inv s cs" and present: "v \<in> snd ` set cs"
  shows "\<exists>c bs pn cn. upward v cs = (c, v) # bs \<and>
           heap s (pred_of (head s) v cs) = Some pn \<and> heap s c = Some cn \<and>
           marked_remove_attempt s v =
             Some (Return (s\<lparr>heap := (heap s)(c \<mapsto> cn\<lparr>removed := True\<rparr>,
                                     pred_of (head s) v cs \<mapsto> pn\<lparr>nxt := nxt cn\<rparr>)\<rparr>, True))"
proof -
  from inv have ci: "chain_inv s cs" by (simp add: marked_inv_def)
  from ci have held: "held s = {}" and srt: "sorted (map snd cs)" by (simp_all add: chain_inv_def)
  from sorted_present_upward[OF srt present] obtain c bs where up: "upward v cs = (c, v) # bs"
    by blast
  from chain_inv_unlink[OF ci up] obtain pn cn where
    f: "heap s (pred_of (head s) v cs) = Some pn" "heap s c = Some cn" "val cn = v"
       "pred_of (head s) v cs \<noteq> c" by blast
  from up validate_inv[OF inv, of v]
  have val: "validate (heap s) (pred_of (head s) v cs) (Some c) = Some True"
    by (simp add: ptr_def)
  have "insert (pred_of (head s) v cs) {c} - {c} - {pred_of (head s) v cs} = {}" by auto
  with up f held val have "marked_remove_attempt s v =
             Some (Return (s\<lparr>heap := (heap s)(c \<mapsto> cn\<lparr>removed := True\<rparr>,
                                     pred_of (head s) v cs \<mapsto> pn\<lparr>nxt := nxt cn\<rparr>)\<rparr>, True))"
    by (simp add: marked_remove_attempt_def marked_remove_attempt_traced_def marked_locate_inv[OF ci] ptr_def mark_removed_def
          unlink_def release_eq held_empty_id)
  with up f show ?thesis by blast
qed

lemma marked_inv_unlink:
  assumes inv: "marked_inv s cs" and up: "upward v cs = (c, v) # bs"
    and pn: "heap s (pred_of (head s) v cs) = Some pn" and cn: "heap s c = Some cn"
  shows "marked_inv (s\<lparr>heap := (heap s)(c \<mapsto> cn\<lparr>removed := True\<rparr>,
                                     pred_of (head s) v cs \<mapsto> pn\<lparr>nxt := nxt cn\<rparr>)\<rparr>)
           (below v cs @ bs)"
proof -
  from inv have ci: "chain_inv s cs" by (simp add: marked_inv_def)
  from chain_inv_unlink[OF ci up] pn cn have
    f: "pred_of (head s) v cs \<noteq> c" "head s \<noteq> c" "c \<notin> fst ` set (below v cs @ bs)"
    and new: "chain_inv (s\<lparr>heap := (heap s)(c \<mapsto> cn\<lparr>removed := True\<rparr>,
                                     pred_of (head s) v cs \<mapsto> pn\<lparr>nxt := nxt cn\<rparr>)\<rparr>)
           (below v cs @ bs)"
    by auto
  have cs: "cs = below v cs @ (c, v) # bs"
    using up below_upward[of v cs] by simp
  have sub: "fst ` set (below v cs @ bs) \<subseteq> fst ` set cs"
    by (subst (2) cs) auto
  from inv pn have pn_ok: "\<not> removed pn"
    using pred_of_mem[of "head s" v cs] unfolding marked_inv_def by (auto split: option.splits)
  let ?h = "(heap s)(c \<mapsto> cn\<lparr>removed := True\<rparr>, pred_of (head s) v cs \<mapsto> pn\<lparr>nxt := nxt cn\<rparr>)"
  have "case ?h a of None \<Rightarrow> False | Some n \<Rightarrow> \<not> removed n"
    if a: "a \<in> insert (head s) (fst ` set (below v cs @ bs))" for a
  proof (cases "a = pred_of (head s) v cs")
    case True
    with pn_ok show ?thesis by simp
  next
    case False
    from a f have "a \<noteq> c" by auto
    moreover from a sub inv have "case heap s a of None \<Rightarrow> False | Some n \<Rightarrow> \<not> removed n"
      unfolding marked_inv_def by blast
    ultimately show ?thesis using False by simp
  qed
  with new show ?thesis
    unfolding marked_inv_def by simp
qed

lemma marked_contains_attempt_result:
  assumes inv: "marked_inv s cs"
  shows "marked_contains_attempt s v = Some (Return (s, v \<in> snd ` set cs))"
proof -
  from inv have ci: "chain_inv s cs" by (simp add: marked_inv_def)
  from ci have held: "held s = {}" and srt: "sorted (map snd cs)" by (simp_all add: chain_inv_def)
  note val = validate_inv[OF inv, of v]
  show ?thesis
  proof (cases "v \<in> snd ` set cs")
    case True
    from sorted_present_upward[OF srt True] obtain c bs where up: "upward v cs = (c, v) # bs"
      by blast
    then have mem: "(c, v) \<in> set cs" using upward_subset[of v cs] by auto
    from chain_inv_cell[OF ci mem] obtain cn where cn: "heap s c = Some cn" "val cn = v" by blast
    from mem inv cn have "\<not> removed cn" unfolding marked_inv_def by force
    with up held True cn val show ?thesis
      by (simp add: marked_contains_attempt_def marked_locate_inv[OF ci] ptr_def
            release_locate[of s _ "Some c", simplified])
  next
    case False
    from absent_upward[OF False] show ?thesis
    proof
      assume "upward v cs = []"
      with held False val show ?thesis
        by (simp add: marked_contains_attempt_def marked_locate_inv[OF ci] ptr_def
              release_locate[of s _ None, simplified])
    next
      assume "\<exists>c y bs. upward v cs = (c, y) # bs \<and> y \<noteq> v \<and> (c, y) \<in> set cs"
      then obtain c y bs where up: "upward v cs = (c, y) # bs" and neq: "y \<noteq> v"
        and mem: "(c, y) \<in> set cs" by blast
      from chain_inv_cell[OF ci mem] obtain cn where "heap s c = Some cn" "val cn = y" by blast
      with up neq held False val show ?thesis
        by (simp add: marked_contains_attempt_def marked_locate_inv[OF ci] ptr_def
              release_locate[of s _ "Some c", simplified])
    qed
  qed
qed

lemma printList_loop_lseg:
  "lseg h p cs None \<Longrightarrow>
   \<forall>a \<in> fst ` set cs. case h a of None \<Rightarrow> False | Some n \<Rightarrow> \<not> removed n \<Longrightarrow>
   printList_loop h p out = Some (out @ map snd cs)"
proof (induction cs arbitrary: p out)
  case Nil
  then show ?case by (subst printList_loop.simps) simp
next
  case (Cons c cs)
  then show ?case
    by (subst printList_loop.simps) (auto split: option.splits)
qed

lemma printList_inv:
  assumes "marked_inv s cs"
  shows "printList s = Some (map snd cs)"
proof -
  from assms have ci: "chain_inv s cs" by (simp add: marked_inv_def)
  from chain_inv_headD[OF ci] obtain hn where hn: "heap s (head s) = Some hn"
    and tl: "lseg (heap s) (nxt hn) cs None" by blast
  from assms have "\<forall>a \<in> fst ` set cs. case heap s a of None \<Rightarrow> False | Some n \<Rightarrow> \<not> removed n"
    by (simp add: marked_inv_def)
  from printList_loop_lseg[OF tl this, of "[]"] hn show ?thesis
    by (simp add: printList_def)
qed

lemma fine_snapshot_loop_lseg:
  "lseg h p cs None \<Longrightarrow> fine_snapshot_loop h p out = Some (out @ map snd cs)"
proof (induction cs arbitrary: p out)
  case Nil
  then show ?case by (subst fine_snapshot_loop.simps) simp
next
  case (Cons c cs)
  then show ?case
    by (subst fine_snapshot_loop.simps) (auto split: option.splits)
qed

lemma fine_snapshot_inv:
  assumes "chain_inv s cs"
  shows "fine_snapshot s = Some (map snd cs)"
proof -
  from chain_inv_headD[OF assms] obtain hn where hn: "heap s (head s) = Some hn"
    and tl: "lseg (heap s) (nxt hn) cs None" by blast
  from fine_snapshot_loop_lseg[OF tl, of "[]"] hn show ?thesis
    by (simp add: fine_snapshot_def)
qed

section \<open>Refinement of the abstract contract\<close>

lemma set_below_upward: "set cs = set (below v cs) \<union> set (upward v cs)"
  by (subst below_upward[of v cs, symmetric]) (simp only: set_append)

lemma fine_insert_sim:
  assumes inv: "fine_inv s cs"
  shows "\<exists>s'. fine_insert s v = Some s' \<and> fine_inv s' (below v cs @ (brk s, v) # upward v cs) \<and>
           head s' = head s"
proof -
  from inv have ci: "chain_inv s cs" and dm: "dom (heap s) = insert (head s) (fst ` set cs)"
    by (simp_all add: fine_inv_def)
  from fine_insert_result[OF ci, of v] obtain pn where
    pn: "heap s (pred_of (head s) v cs) = Some pn" and
    res: "fine_insert s v =
       Some (s\<lparr>heap := (heap s)(brk s \<mapsto> \<lparr>val = v, nxt = ptr (upward v cs)\<rparr>,
                                  pred_of (head s) v cs \<mapsto> pn\<lparr>nxt := Some (brk s)\<rparr>),
               brk := Suc (brk s)\<rparr>)" by blast
  have "chain_inv (s\<lparr>heap := (heap s)(brk s \<mapsto> \<lparr>val = v, nxt = ptr (upward v cs)\<rparr>,
                                  pred_of (head s) v cs \<mapsto> pn\<lparr>nxt := Some (brk s)\<rparr>),
               brk := Suc (brk s)\<rparr>) (below v cs @ (brk s, v) # upward v cs)"
    by (rule chain_inv_insert[OF ci pn]) simp_all
  moreover have "pred_of (head s) v cs \<in> dom (heap s)" using pn by blast
  ultimately show ?thesis
    using res dm set_below_upward[of cs v] by (auto simp: fine_inv_def)
qed

lemma fine_remove_unlinks:
  assumes inv: "fine_inv s cs" and present: "v \<in> snd ` set cs"
  shows "\<exists>c bs s'. upward v cs = (c, v) # bs \<and> fine_remove s v = Some (s', True) \<and>
           fine_inv s' (below v cs @ bs) \<and> heap s' c = None \<and> head s' = head s"
proof -
  from inv have ci: "chain_inv s cs" and dm: "dom (heap s) = insert (head s) (fst ` set cs)"
    by (simp_all add: fine_inv_def)
  from fine_remove_present[OF ci present] obtain c bs pn cn where
    up: "upward v cs = (c, v) # bs" and pn: "heap s (pred_of (head s) v cs) = Some pn"
    and cn: "heap s c = Some cn"
    and res: "fine_remove s v =
             Some (s\<lparr>heap := (heap s)(pred_of (head s) v cs \<mapsto> pn\<lparr>nxt := nxt cn\<rparr>, c := None)\<rparr>, True)"
    by blast
  from chain_inv_unlink[OF ci up] pn cn have
    f: "pred_of (head s) v cs \<noteq> c" "head s \<noteq> c" "c \<notin> fst ` set (below v cs @ bs)"
    and new: "chain_inv (s\<lparr>heap := (heap s)(c := None, pred_of (head s) v cs \<mapsto> pn\<lparr>nxt := nxt cn\<rparr>)\<rparr>)
           (below v cs @ bs)"
    by auto
  have tw: "(heap s)(pred_of (head s) v cs \<mapsto> pn\<lparr>nxt := nxt cn\<rparr>, c := None)
      = (heap s)(c := None, pred_of (head s) v cs \<mapsto> pn\<lparr>nxt := nxt cn\<rparr>)"
    using f(1) by (simp add: fun_upd_twist)
  have cs: "cs = below v cs @ (c, v) # bs"
    using up below_upward[of v cs] by simp
  have addrs: "fst ` set cs = insert c (fst ` set (below v cs @ bs))"
    by (subst cs) auto
  have "pred_of (head s) v cs \<in> dom (heap s)" using pn by blast
  then have "dom ((heap s)(c := None, pred_of (head s) v cs \<mapsto> pn\<lparr>nxt := nxt cn\<rparr>))
      = insert (head s) (fst ` set (below v cs @ bs))"
    using dm f addrs by auto
  with new have "fine_inv (s\<lparr>heap := (heap s)(c := None, pred_of (head s) v cs \<mapsto> pn\<lparr>nxt := nxt cn\<rparr>)\<rparr>)
           (below v cs @ bs)"
    by (simp add: fine_inv_def)
  with res up f(1) show ?thesis
    unfolding tw by auto
qed

lemma fine_remove_sim:
  assumes inv: "fine_inv s cs"
  shows "\<exists>s' cs'. fine_remove s v = Some (s', v \<in> snd ` set cs) \<and> fine_inv s' cs' \<and>
           map snd cs' = remove1 v (map snd cs) \<and> head s' = head s"
proof (cases "v \<in> snd ` set cs")
  case False
  from inv have ci: "chain_inv s cs" by (simp add: fine_inv_def)
  from False have "remove1 v (map snd cs) = map snd cs" by (simp add: remove1_idem)
  with fine_remove_absent[OF ci False] inv False show ?thesis by auto
next
  case True
  from fine_remove_unlinks[OF inv True] obtain c bs s' where
    up: "upward v cs = (c, v) # bs" and r: "fine_remove s v = Some (s', True)"
    "fine_inv s' (below v cs @ bs)" "head s' = head s" by blast
  have "map snd (below v cs @ bs) = remove1 v (map snd cs)"
    using remove1_below_upward[OF up] by simp
  with r True show ?thesis by auto
qed

lemma fine_step_sim:
  assumes inv: "fine_inv s cs"
  shows "\<exists>s' cs'. fine_step s x = Some (s', snd (set_step (map snd cs) x)) \<and> fine_inv s' cs' \<and>
           map snd cs' = fst (set_step (map snd cs) x) \<and> head s' = head s"
proof (cases x)
  case (Insert v)
  from fine_insert_sim[OF inv, of v] obtain s' where
    "fine_insert s v = Some s'" "fine_inv s' (below v cs @ (brk s, v) # upward v cs)" "head s' = head s"
    by blast
  with Insert show ?thesis
    by (auto simp: insort_below_upward intro!: exI[of _ "below v cs @ (brk s, v) # upward v cs"])
next
  case (Remove v)
  with fine_remove_sim[OF inv, of v] show ?thesis by auto
next
  case (Contains v)
  from inv have "chain_inv s cs" by (simp add: fine_inv_def)
  from fine_contains_result[OF this, of v] Contains inv show ?thesis by auto
qed

lemma marked_insert_result:
  "marked_insert_attempt s v = Some (Return r) \<Longrightarrow> marked_insert s v = Some r"
  by (subst marked_insert.simps) simp

lemma marked_remove_result:
  "marked_remove_attempt s v = Some (Return r) \<Longrightarrow> marked_remove s v = Some r"
  by (subst marked_remove.simps) simp

lemma marked_contains_result:
  "marked_contains_attempt s v = Some (Return r) \<Longrightarrow> marked_contains s v = Some r"
  by (subst marked_contains.simps) simp

lemma marked_step_sim:
  assumes inv: "marked_inv s cs"
  shows "\<exists>s' cs'. marked_step s x = Some (s', snd (set_step (map snd cs) x)) \<and> marked_inv s' cs' \<and>
           map snd cs' = fst (set_step (map snd cs) x) \<and> head s' = head s \<and> brk s \<le> brk s' \<and>
           fst ` set cs' \<subseteq> insert (brk s) (fst ` set cs) \<and>
           (\<forall>a. a \<notin> insert (head s) (fst ` set cs) \<longrightarrow> a < brk s \<longrightarrow> heap s' a = heap s a)"
proof (cases x)
  case (Insert v)
  from inv have ci: "chain_inv s cs" by (simp add: marked_inv_def)
  from marked_insert_attempt_result[OF inv, of v] obtain pn where
    pn: "heap s (pred_of (head s) v cs) = Some pn" and
    res: "marked_insert_attempt s v =
       Some (Return (s\<lparr>heap := (heap s)(brk s \<mapsto> \<lparr>val = v, nxt = ptr (upward v cs), removed = False\<rparr>,
                                  pred_of (head s) v cs \<mapsto> pn\<lparr>nxt := Some (brk s)\<rparr>),
               brk := Suc (brk s)\<rparr>))" by blast
  define s' where "s' = s\<lparr>heap := (heap s)(brk s \<mapsto> \<lparr>val = v, nxt = ptr (upward v cs), removed = False\<rparr>,
                                  pred_of (head s) v cs \<mapsto> pn\<lparr>nxt := Some (brk s)\<rparr>),
               brk := Suc (brk s)\<rparr>"
  define cs' where "cs' = below v cs @ (brk s, v) # upward v cs"
  have 1: "marked_step s x = Some (s', snd (set_step (map snd cs) x))"
    using marked_insert_result[OF res] Insert by (simp add: s'_def)
  have 2: "marked_inv s' cs'"
    unfolding s'_def cs'_def by (rule marked_inv_insert[OF inv pn])
  have 3: "map snd cs' = fst (set_step (map snd cs) x)"
    using Insert by (simp add: cs'_def insort_below_upward)
  have 4: "fst ` set cs' \<subseteq> insert (brk s) (fst ` set cs)"
    using set_below_upward[of cs v] by (auto simp: cs'_def)
  have 5: "heap s' a = heap s a" if "a \<notin> insert (head s) (fst ` set cs)" "a < brk s" for a
    using that pred_of_mem[of "head s" v cs] by (auto simp: s'_def)
  have 6: "head s' = head s" "brk s \<le> brk s'" by (simp_all add: s'_def)
  from 1 2 3 4 5 6 show ?thesis by blast
next
  case (Remove v)
  show ?thesis
  proof (cases "v \<in> snd ` set cs")
    case False
    then have "remove1 v (map snd cs) = map snd cs" by (simp add: remove1_idem)
    with marked_remove_result[OF marked_remove_attempt_absent[OF inv False]] inv False Remove
    show ?thesis by auto
  next
    case True
    from marked_remove_attempt_present[OF inv True] obtain c bs pn cn where
      up: "upward v cs = (c, v) # bs" and pn: "heap s (pred_of (head s) v cs) = Some pn"
      and cn: "heap s c = Some cn"
      and res: "marked_remove_attempt s v =
             Some (Return (s\<lparr>heap := (heap s)(c \<mapsto> cn\<lparr>removed := True\<rparr>,
                                     pred_of (head s) v cs \<mapsto> pn\<lparr>nxt := nxt cn\<rparr>)\<rparr>, True))"
      by blast
    define s' where "s' = s\<lparr>heap := (heap s)(c \<mapsto> cn\<lparr>removed := True\<rparr>,
                                     pred_of (head s) v cs \<mapsto> pn\<lparr>nxt := nxt cn\<rparr>)\<rparr>"
    define cs' where "cs' = below v cs @ bs"
    have cs: "cs = below v cs @ (c, v) # bs"
      using up below_upward[of v cs] by simp
    have 1: "marked_step s x = Some (s', snd (set_step (map snd cs) x))"
      using marked_remove_result[OF res] Remove True by (simp add: s'_def)
    have 2: "marked_inv s' cs'"
      unfolding s'_def cs'_def by (rule marked_inv_unlink[OF inv up pn cn])
    have 3: "map snd cs' = fst (set_step (map snd cs) x)"
      using remove1_below_upward[OF up] Remove by (simp add: cs'_def)
    have 4: "fst ` set cs' \<subseteq> insert (brk s) (fst ` set cs)"
      unfolding cs'_def by (subst (2) cs) auto
    have c_in: "c \<in> fst ` set cs"
      by (subst cs) simp
    have 5: "heap s' a = heap s a" if "a \<notin> insert (head s) (fst ` set cs)" "a < brk s" for a
      using that pred_of_mem[of "head s" v cs] c_in by (auto simp: s'_def)
    have 6: "head s' = head s" "brk s \<le> brk s'" by (simp_all add: s'_def)
    from 1 2 3 4 5 6 show ?thesis by blast
  qed
next
  case (Contains v)
  from marked_contains_result[OF marked_contains_attempt_result[OF inv, of v]] Contains inv
  show ?thesis by auto
qed

lemma fine_run_sim:
  "fine_inv s cs \<Longrightarrow>
   \<exists>s' cs'. run fine_step s ops = Some (s', snd (set_run (map snd cs) ops)) \<and> fine_inv s' cs' \<and>
     map snd cs' = fst (set_run (map snd cs) ops) \<and> head s' = head s"
proof (induction ops arbitrary: s cs)
  case Nil
  then show ?case by auto
next
  case (Cons x ops)
  from fine_step_sim[OF Cons.prems, of x] obtain s1 cs1 where
    st: "fine_step s x = Some (s1, snd (set_step (map snd cs) x))" and inv1: "fine_inv s1 cs1"
    and abs1: "map snd cs1 = fst (set_step (map snd cs) x)" and hd1: "head s1 = head s" by blast
  from Cons.IH[OF inv1] obtain s' cs' where
    "run fine_step s1 ops = Some (s', snd (set_run (map snd cs1) ops))" "fine_inv s' cs'"
    "map snd cs' = fst (set_run (map snd cs1) ops)" "head s' = head s1" by blast
  with st abs1 hd1 show ?case
    by (auto simp: split_beta)
qed

lemma marked_run_sim:
  "marked_inv s cs \<Longrightarrow>
   \<exists>s' cs'. run marked_step s ops = Some (s', snd (set_run (map snd cs) ops)) \<and> marked_inv s' cs' \<and>
     map snd cs' = fst (set_run (map snd cs) ops) \<and> head s' = head s \<and> brk s \<le> brk s' \<and>
     fst ` set cs' \<subseteq> fst ` set cs \<union> {a. brk s \<le> a} \<and>
     (\<forall>a. a \<notin> insert (head s) (fst ` set cs) \<longrightarrow> a < brk s \<longrightarrow> heap s' a = heap s a)"
proof (induction ops arbitrary: s cs)
  case Nil
  then show ?case by auto
next
  case (Cons x ops)
  from marked_step_sim[OF Cons.prems, of x] obtain s1 cs1 where
    st: "marked_step s x = Some (s1, snd (set_step (map snd cs) x))" and inv1: "marked_inv s1 cs1"
    and abs1: "map snd cs1 = fst (set_step (map snd cs) x)" and hd1: "head s1 = head s"
    and b1: "brk s \<le> brk s1" and sub1: "fst ` set cs1 \<subseteq> insert (brk s) (fst ` set cs)"
    and keep1: "\<And>a. a \<notin> insert (head s) (fst ` set cs) \<Longrightarrow> a < brk s \<Longrightarrow> heap s1 a = heap s a"
    by blast
  from Cons.IH[OF inv1] obtain s' cs' where
    r: "run marked_step s1 ops = Some (s', snd (set_run (map snd cs1) ops))" "marked_inv s' cs'"
    "map snd cs' = fst (set_run (map snd cs1) ops)" "head s' = head s1" and b2: "brk s1 \<le> brk s'"
    and sub2: "fst ` set cs' \<subseteq> fst ` set cs1 \<union> {a. brk s1 \<le> a}"
    and keep2: "\<And>a. a \<notin> insert (head s1) (fst ` set cs1) \<Longrightarrow> a < brk s1 \<Longrightarrow> heap s' a = heap s1 a"
    by blast
  have sub: "fst ` set cs' \<subseteq> fst ` set cs \<union> {a. brk s \<le> a}"
  proof
    fix a assume "a \<in> fst ` set cs'"
    with sub2 have "a \<in> fst ` set cs1 \<or> brk s1 \<le> a" by blast
    with sub1 b1 show "a \<in> fst ` set cs \<union> {a. brk s \<le> a}" by auto
  qed
  have keep: "heap s' a = heap s a" if "a \<notin> insert (head s) (fst ` set cs)" "a < brk s" for a
  proof -
    from that sub1 hd1 have "a \<notin> insert (head s1) (fst ` set cs1)" by auto
    moreover from that b1 have "a < brk s1" by simp
    ultimately show ?thesis using keep1[OF that] keep2 by simp
  qed
  have "run marked_step s (x # ops) = Some (s', snd (set_run (map snd cs) (x # ops)))"
    using st r(1) abs1 by (simp add: split_beta)
  moreover have "map snd cs' = fst (set_run (map snd cs) (x # ops))"
    using r(3) abs1 by (simp add: split_beta)
  moreover have "head s' = head s" "brk s \<le> brk s'"
    using r(4) hd1 b1 b2 by simp_all
  ultimately show ?case
    using r(2) sub keep by blast
qed

lemma fine_inv_new: "fine_inv FineGrainedList []"
  by (simp add: fine_inv_def chain_inv_def FineGrainedList_def)

lemma marked_inv_new: "marked_inv MarkedList []"
  by (simp add: marked_inv_def chain_inv_def MarkedList_def)

section \<open>Runs from the empty list\<close>

lemma count_list_insort: "count_list (insort w xs) v = count_list xs v + (if w = v then 1 else 0)"
  by (induction xs) auto

lemma count_list_remove1:
  "w \<in> set xs \<Longrightarrow> count_list (remove1 w xs) v + (if w = v then 1 else 0) = count_list xs v"
  by (induction xs) auto

lemma set_step_count:
  "count_list (fst (set_step xs x)) v + (if x = Remove v \<and> snd (set_step xs x) = Bool True then 1 else 0)
     = count_list xs v + (if x = Insert v then 1 else 0)"
proof (cases x)
  case (Insert w)
  then show ?thesis by (simp add: count_list_insort)
next
  case (Remove w)
  then show ?thesis
    using count_list_remove1[of w xs v] by (cases "w \<in> set xs") (auto simp: remove1_idem)
next
  case (Contains w)
  then show ?thesis by simp
qed

lemma set_run_count:
  "count_list (fst (set_run xs ops)) v + successful_removes v ops (snd (set_run xs ops))
     = count_list xs v + insert_calls v ops"
proof (induction ops arbitrary: xs)
  case Nil
  then show ?case by (simp add: successful_removes_def insert_calls_def)
next
  case (Cons x ops)
  from Cons.IH[of "fst (set_step xs x)"] set_step_count[of xs x v]
  show ?case
    by (auto simp: successful_removes_def insert_calls_def split_beta)
qed

lemma set_run_member:
  "v \<in> set (fst (set_run [] ops)) \<longleftrightarrow>
     successful_removes v ops (snd (set_run [] ops)) < insert_calls v ops"
proof -
  have "v \<in> set (fst (set_run [] ops)) \<longleftrightarrow> 0 < count_list (fst (set_run [] ops)) v"
    using count_list_0_iff[of "fst (set_run [] ops)" v] by auto
  with set_run_count[of "[]" ops v] show ?thesis by (simp only: count_list.simps) arith
qed

lemma fine_run_new:
  "\<exists>s cs. run fine_step FineGrainedList ops = Some (s, snd (set_run [] ops)) \<and> fine_inv s cs \<and>
     map snd cs = fst (set_run [] ops) \<and> head s = head FineGrainedList"
  using fine_run_sim[OF fine_inv_new, of ops] by simp

lemma marked_run_new:
  "\<exists>s cs. run marked_step MarkedList ops = Some (s, snd (set_run [] ops)) \<and> marked_inv s cs \<and>
     map snd cs = fst (set_run [] ops) \<and> head s = head MarkedList"
  using marked_run_sim[OF marked_inv_new, of ops] by auto

lemma fine_reach_inv:
  assumes "run fine_step FineGrainedList ops = Some (s, rs)"
  shows "\<exists>cs. fine_inv s cs"
  using fine_run_new[of ops] assms by auto

lemma marked_reach_inv:
  assumes "run marked_step MarkedList ops = Some (s, rs)"
  shows "\<exists>cs. marked_inv s cs"
  using marked_run_new[of ops] assms by auto

lemma marked_insert_sim:
  assumes inv: "marked_inv s cs"
  shows "\<exists>s'. marked_insert s v = Some s' \<and> marked_inv s' (below v cs @ (brk s, v) # upward v cs) \<and>
           dom (heap s') = insert (brk s) (dom (heap s))"
proof -
  from marked_insert_attempt_result[OF inv, of v] obtain pn where
    pn: "heap s (pred_of (head s) v cs) = Some pn" and
    res: "marked_insert_attempt s v =
       Some (Return (s\<lparr>heap := (heap s)(brk s \<mapsto> \<lparr>val = v, nxt = ptr (upward v cs), removed = False\<rparr>,
                                  pred_of (head s) v cs \<mapsto> pn\<lparr>nxt := Some (brk s)\<rparr>),
               brk := Suc (brk s)\<rparr>))" by blast
  have "pred_of (head s) v cs \<in> dom (heap s)" using pn by blast
  with marked_insert_result[OF res] marked_inv_insert[OF inv pn] show ?thesis by auto
qed

lemma inv_fresh: "chain_inv s cs \<Longrightarrow> brk s \<notin> dom (heap s)"
  by (auto simp: chain_inv_def)

lemma run_results:
  "map_option snd (run step s ops) = Some rs \<Longrightarrow> \<exists>s'. run step s ops = Some (s', rs)"
  by auto

lemma marked_remove_unlinks:
  assumes inv: "marked_inv s cs" and present: "v \<in> snd ` set cs"
  shows "\<exists>c bs s' cn. upward v cs = (c, v) # bs \<and> marked_remove s v = Some (s', True) \<and>
           marked_inv s' (below v cs @ bs) \<and> heap s' c = Some cn \<and> removed cn \<and> head s' = head s"
proof -
  from inv have ci: "chain_inv s cs" by (simp add: marked_inv_def)
  from marked_remove_attempt_present[OF inv present] obtain c bs pn cn where
    up: "upward v cs = (c, v) # bs" and pn: "heap s (pred_of (head s) v cs) = Some pn"
    and cn: "heap s c = Some cn"
    and res: "marked_remove_attempt s v =
           Some (Return (s\<lparr>heap := (heap s)(c \<mapsto> cn\<lparr>removed := True\<rparr>,
                                   pred_of (head s) v cs \<mapsto> pn\<lparr>nxt := nxt cn\<rparr>)\<rparr>, True))"
    by blast
  from chain_inv_unlink[OF ci up] have "pred_of (head s) v cs \<noteq> c" by blast
  with marked_remove_result[OF res] marked_inv_unlink[OF inv up pn cn] up show ?thesis
    by auto
qed

lemma fine_chain_inv:
  assumes "chain_inv s cs"
  shows "fine_chain s = Some (- 1 # map snd cs)"
proof -
  from assms have "lseg (heap s) (Some (head s)) ((head s, - 1) # cs) None"
    by (simp add: chain_inv_def)
  from fine_snapshot_loop_lseg[OF this, of "[]"] show ?thesis
    by (simp add: fine_chain_def)
qed

lemma marked_chain_inv:
  assumes "marked_inv s cs"
  shows "marked_chain s = Some (- 1 # map snd cs)"
proof -
  from assms have "lseg (heap s) (Some (head s)) ((head s, - 1) # cs) None"
    and "\<forall>a \<in> fst ` set ((head s, - 1) # cs). case heap s a of None \<Rightarrow> False | Some n \<Rightarrow> \<not> removed n"
    by (simp_all add: marked_inv_def chain_inv_def)
  from printList_loop_lseg[OF this, of "[]"] show ?thesis
    by (simp add: marked_chain_def)
qed

lemma locate_not_head:
  assumes ci: "chain_inv s cs"
  shows "ptr (upward v cs) \<noteq> Some (head s)"
proof
  assume "ptr (upward v cs) = Some (head s)"
  with chain_inv_pred[OF ci, of v] have "head s \<in> fst ` set cs" by blast
  with chain_inv_headD[OF ci] show False by blast
qed

lemma fine_sentinel:
  assumes inv: "fine_inv s cs"
  shows "(\<exists>hn. heap s (head s) = Some hn \<and> val hn = - 1) \<and>
     (\<exists>l p c xs. fine_locate s v = Some (l, p, c) \<and> c \<noteq> Some (head s) \<and>
        fine_snapshot s = Some xs \<and> fine_contains s v = Some (s, v \<in> set xs)) \<and>
     (\<exists>s' b hn'. fine_remove s v = Some (s', b) \<and> head s' = head s \<and>
        heap s' (head s') = Some hn' \<and> val hn' = - 1)"
proof -
  from inv have ci: "chain_inv s cs" by (simp add: fine_inv_def)
  from chain_inv_headD[OF ci] have 1: "\<exists>hn. heap s (head s) = Some hn \<and> val hn = - 1" by blast
  from fine_locate_inv[OF ci, of v] locate_not_head[OF ci, of v] fine_snapshot_inv[OF ci]
    fine_contains_result[OF ci, of v]
  have 2: "\<exists>l p c xs. fine_locate s v = Some (l, p, c) \<and> c \<noteq> Some (head s) \<and>
        fine_snapshot s = Some xs \<and> fine_contains s v = Some (s, v \<in> set xs)"
    by simp
  from fine_remove_sim[OF inv, of v] obtain s' cs' where
    r: "fine_remove s v = Some (s', v \<in> snd ` set cs)" "fine_inv s' cs'" "head s' = head s" by blast
  from r(2) have "chain_inv s' cs'" by (simp add: fine_inv_def)
  from chain_inv_headD[OF this] r(1,3)
  have 3: "\<exists>s' b hn'. fine_remove s v = Some (s', b) \<and> head s' = head s \<and>
        heap s' (head s') = Some hn' \<and> val hn' = - 1" by blast
  from 1 2 3 show ?thesis by blast
qed

lemma marked_sentinel:
  assumes inv: "marked_inv s cs"
  shows "(\<exists>hn. heap s (head s) = Some hn \<and> val hn = - 1 \<and> \<not> removed hn) \<and>
     (\<exists>l p c xs. marked_locate s v = Some (l, p, c) \<and> c \<noteq> Some (head s) \<and>
        printList s = Some xs \<and> marked_contains s v = Some (s, v \<in> set xs)) \<and>
     (\<exists>s' b hn'. marked_remove s v = Some (s', b) \<and> head s' = head s \<and>
        heap s' (head s') = Some hn' \<and> val hn' = - 1 \<and> \<not> removed hn')"
proof -
  have hd_ok: "\<exists>hn. heap t (head t) = Some hn \<and> val hn = - 1 \<and> \<not> removed hn"
    if "marked_inv t ds" for t :: "mnode memory" and ds
  proof -
    from that have ci: "chain_inv t ds" by (simp add: marked_inv_def)
    from chain_inv_headD[OF ci] obtain hn where "heap t (head t) = Some hn" "val hn = - 1" by blast
    moreover from that this(1) have "\<not> removed hn" by (auto simp: marked_inv_def)
    ultimately show ?thesis by blast
  qed
  from inv have ci: "chain_inv s cs" by (simp add: marked_inv_def)
  from marked_locate_inv[OF ci, of v] locate_not_head[OF ci, of v] printList_inv[OF inv]
    marked_contains_result[OF marked_contains_attempt_result[OF inv, of v]]
  have 2: "\<exists>l p c xs. marked_locate s v = Some (l, p, c) \<and> c \<noteq> Some (head s) \<and>
        printList s = Some xs \<and> marked_contains s v = Some (s, v \<in> set xs)"
    by simp
  from marked_step_sim[OF inv, of "Remove v"] obtain s' cs' b where
    r: "marked_remove s v = Some (s', b)" "marked_inv s' cs'" "head s' = head s"
    by auto
  from hd_ok[OF r(2)] r(1,3)
  have 3: "\<exists>s' b hn'. marked_remove s v = Some (s', b) \<and> head s' = head s \<and>
        heap s' (head s') = Some hn' \<and> val hn' = - 1 \<and> \<not> removed hn'" by blast
  from hd_ok[OF inv] 2 3 show ?thesis by blast
qed

lemma marked_contains_reads:
  assumes inv: "marked_inv s cs"
  shows "marked_contains s w =
     Some (s, case ptr (upward w cs) of
                None \<Rightarrow> False
              | Some d \<Rightarrow> (case heap s d of None \<Rightarrow> False | Some dn \<Rightarrow> \<not> removed dn \<and> val dn = w))"
proof -
  from inv have ci: "chain_inv s cs" by (simp add: marked_inv_def)
  from ci have srt: "sorted (map snd cs)" by (simp add: chain_inv_def)
  have "(w \<in> snd ` set cs) =
     (case ptr (upward w cs) of
        None \<Rightarrow> False
      | Some d \<Rightarrow> (case heap s d of None \<Rightarrow> False | Some dn \<Rightarrow> \<not> removed dn \<and> val dn = w))"
  proof (cases "w \<in> snd ` set cs")
    case True
    from sorted_present_upward[OF srt True] obtain c bs where up: "upward w cs = (c, w) # bs"
      by blast
    then have mem: "(c, w) \<in> set cs" using upward_subset[of w cs] by auto
    from chain_inv_cell[OF ci mem] obtain cn where cn: "heap s c = Some cn" "val cn = w" by blast
    from mem inv cn have "\<not> removed cn" unfolding marked_inv_def by force
    with up cn True show ?thesis by (simp add: ptr_def)
  next
    case False
    from absent_upward[OF False] show ?thesis
    proof
      assume "upward w cs = []"
      with False show ?thesis by (simp add: ptr_def)
    next
      assume "\<exists>c y bs. upward w cs = (c, y) # bs \<and> y \<noteq> w \<and> (c, y) \<in> set cs"
      then obtain c y bs where up: "upward w cs = (c, y) # bs" and neq: "y \<noteq> w"
        and mem: "(c, y) \<in> set cs" by blast
      from chain_inv_cell[OF ci mem] obtain cn where "heap s c = Some cn" "val cn = y" by blast
      with up neq False show ?thesis by (simp add: ptr_def)
    qed
  qed
  with marked_contains_result[OF marked_contains_attempt_result[OF inv, of w]] show ?thesis
    by simp
qed

lemma marked_retired_unseen:
  assumes inv: "marked_inv s cs"
    and out: "c \<notin> insert (head s) (fst ` set cs)" and below_brk: "c < brk s"
    and rn: "run marked_step s ops = Some (s', rs)"
  shows "heap s' c = heap s c \<and>
     (\<exists>l p q ys. marked_locate s' w = Some (l, p, q) \<and> q \<noteq> Some c \<and> p \<noteq> c \<and>
        marked_contains s' w =
          Some (s', case q of
                      None \<Rightarrow> False
                    | Some d \<Rightarrow> (case heap s' d of None \<Rightarrow> False | Some dn \<Rightarrow> \<not> removed dn \<and> val dn = w)) \<and>
        printList s' = Some ys \<and> marked_contains s' w = Some (s', w \<in> set ys))"
proof -
  from marked_run_sim[OF inv, of ops] rn obtain cs' where
    inv': "marked_inv s' cs'" and hd: "head s' = head s"
    and sub: "fst ` set cs' \<subseteq> fst ` set cs \<union> {a. brk s \<le> a}"
    and keep: "\<And>a. a \<notin> insert (head s) (fst ` set cs) \<Longrightarrow> a < brk s \<Longrightarrow> heap s' a = heap s a"
    by auto
  from inv' have ci': "chain_inv s' cs'" by (simp add: marked_inv_def)
  from sub out below_brk hd have out': "c \<notin> insert (head s') (fst ` set cs')" by auto
  have q: "ptr (upward w cs') \<noteq> Some c"
    using chain_inv_pred[OF ci', of w] out' by auto
  have p: "pred_of (head s') w cs' \<noteq> c"
    using pred_of_mem[of "head s'" w cs'] out' by auto
  note K = keep[OF out below_brk]
  note L = marked_locate_inv[OF ci', of w]
  note R = marked_contains_reads[OF inv', of w]
  note P = printList_inv[OF inv']
  have C: "marked_contains s' w = Some (s', w \<in> set (map snd cs'))"
    using marked_contains_result[OF marked_contains_attempt_result[OF inv', of w]] by simp
  have "\<exists>l p q ys. marked_locate s' w = Some (l, p, q) \<and> q \<noteq> Some c \<and> p \<noteq> c \<and>
        marked_contains s' w =
          Some (s', case q of
                      None \<Rightarrow> False
                    | Some d \<Rightarrow> (case heap s' d of None \<Rightarrow> False | Some dn \<Rightarrow> \<not> removed dn \<and> val dn = w)) \<and>
        printList s' = Some ys \<and> marked_contains s' w = Some (s', w \<in> set ys)"
    using L q p R P C by blast
  with K show ?thesis by blast
qed

section \<open>Bounded traversals\<close>

lemma fine_loop_fuel_agrees:
  "fine_loop_fuel n v s pred cur = Some r \<Longrightarrow> fine_loop v s pred cur = Some r"
proof (induction n arbitrary: s pred cur)
  case 0
  then show ?case
    by (subst fine_loop.simps) (auto split: option.splits if_splits)
next
  case (Suc n)
  then show ?case
    by (subst fine_loop.simps) (auto split: option.splits if_splits)
qed

lemma marked_search_fuel_agrees:
  "marked_search_fuel n v h pred cur = Some r \<Longrightarrow> marked_search v h pred cur = Some r"
proof (induction n arbitrary: pred cur)
  case 0
  then show ?case
    by (subst marked_search.simps) (auto split: option.splits if_splits)
next
  case (Suc n)
  then show ?case
    by (subst marked_search.simps) (auto split: option.splits if_splits)
qed

lemma marked_search_fuel_lseg:
  "lseg h cur cs None \<Longrightarrow> length cs \<le> n \<Longrightarrow> marked_search_fuel n v h pred cur \<noteq> None"
proof (induction cs arbitrary: n pred cur)
  case Nil
  then show ?case by (cases n) auto
next
  case (Cons c cs)
  then obtain m where n: "n = Suc m" by (cases n) auto
  with Cons show ?case by (auto split: option.splits)
qed

lemma fine_loop_fuel_lseg:
  "lseg (heap s) cur cs None \<Longrightarrow> pred \<notin> fst ` set cs \<Longrightarrow>
   held s = insert pred (set_option cur) \<Longrightarrow> length cs \<le> n \<Longrightarrow>
   fine_loop_fuel n v s pred cur \<noteq> None"
proof (induction cs arbitrary: n s pred cur)
  case Nil
  then show ?case by (cases n) auto
next
  case (Cons c cs)
  obtain a x where c: "c = (a, x)" by (cases c)
  from Cons.prems(4) obtain m where n: "n = Suc m" and m: "length cs \<le> m" by (cases n) auto
  from Cons.prems c obtain cn where cur: "cur = Some a" and cn: "heap s a = Some cn" "val cn = x"
    and tl: "lseg (heap s) (nxt cn) cs None"
    by (auto split: option.splits)
  from cn(1) tl have a_notin: "a \<notin> fst ` set cs" by (rule lseg_cell_not_behind)
  show ?case
  proof (cases "x < v")
    case False
    with cur cn n show ?thesis by simp
  next
    case True
    define s' where "s' = s\<lparr>held := insert a (set_option (nxt cn))\<rparr>"
    have nxt_alloc: "\<And>b. nxt cn = Some b \<Longrightarrow> heap s b \<noteq> None \<and> b \<noteq> a"
      using tl a_notin by (cases cs) (auto split: option.splits)
    have pa: "pred \<noteq> a" using Cons.prems(2) c by auto
    have lk: "lock_opt (unlock s pred) (nxt cn) = Some s'"
      using Cons.prems(3) cur pa nxt_alloc
      by (cases "nxt cn") (auto simp: lock_opt_def lock_def unlock_def s'_def intro!: held_cong)
    have "fine_loop_fuel m v s' a (nxt cn) \<noteq> None"
      by (rule Cons.IH) (use tl a_notin m in \<open>auto simp: s'_def\<close>)
    with True cur cn lk n show ?thesis by simp
  qed
qed

lemma fine_locate_fuel_inv:
  assumes ci: "chain_inv s cs" and n: "length cs \<le> n"
  shows "fine_locate_fuel n s v = fine_locate s v"
proof -
  from chain_inv_headD[OF ci] obtain hn where hn: "heap s (head s) = Some hn"
    and tl: "lseg (heap s) (nxt hn) cs None" and hd: "head s \<notin> fst ` set cs" by blast
  from ci have held: "held s = {}" by (simp add: chain_inv_def)
  define s2 where "s2 = s\<lparr>held := insert (head s) (set_option (nxt hn))\<rparr>"
  have neq: "\<And>b. nxt hn = Some b \<Longrightarrow> heap s b \<noteq> None \<and> b \<noteq> head s"
    using tl hd by (cases cs) (auto split: option.splits)
  have l2: "lock_opt (s\<lparr>held := {head s}\<rparr>) (nxt hn) = Some s2"
    using neq by (cases "nxt hn") (auto simp: lock_opt_def lock_def s2_def intro!: held_cong)
  have "fine_loop_fuel n v s2 (head s) (nxt hn) \<noteq> None"
    by (rule fine_loop_fuel_lseg[where cs = cs]) (use tl hd n in \<open>auto simp: s2_def\<close>)
  then obtain r where r: "fine_loop_fuel n v s2 (head s) (nxt hn) = Some r" by blast
  from fine_loop_fuel_agrees[OF r] r hn held l2 show ?thesis
    by (simp add: fine_locate_def fine_locate_fuel_def lock_def s2_def)
qed

lemma marked_locate_fuel_inv:
  assumes ci: "chain_inv s cs" and n: "length cs \<le> n"
  shows "marked_locate_fuel n s v = marked_locate s v"
proof -
  from chain_inv_headD[OF ci] obtain hn where hn: "heap s (head s) = Some hn"
    and tl: "lseg (heap s) (nxt hn) cs None" by blast
  from marked_search_fuel_lseg[OF tl n, of v "head s"] obtain r where
    r: "marked_search_fuel n v (heap s) (head s) (nxt hn) = Some r" by blast
  from marked_search_fuel_agrees[OF r] r hn show ?thesis
    by (simp add: marked_locate_def marked_locate_fuel_def)
qed

section \<open>The claims\<close>

text \<open>
  C5. For a \<open>pred\<close> that points to a node, and a \<open>cur\<close> that is null or points to a node,
  \<^verbatim>\<open>validate(pred, curr)\<close> returns true exactly when \<open>pred\<close> is not marked removed, \<open>cur\<close>,
  when it is not null, is not marked removed, and \<^verbatim>\<open>pred->next == curr\<close>.
\<close>

theorem validate_iff:
  assumes "h pred = Some pn"
    and "cur = None \<or> (\<exists>c cn. cur = Some c \<and> h c = Some cn)"
  shows "validate h pred cur =
           Some (\<not> removed pn \<and> (\<forall>c cn. cur = Some c \<and> h c = Some cn \<longrightarrow> \<not> removed cn) \<and> nxt pn = cur)"
  using assms by (auto simp: validate_def)

theorem validate_iff_witness:
  "[0 \<mapsto> \<lparr>val = - 1, nxt = Some 1, removed = False\<rparr>, 1 \<mapsto> \<lparr>val = 5, nxt = None, removed = True\<rparr>] (0::nat)
     = Some \<lparr>val = - 1, nxt = Some 1, removed = False\<rparr> \<and>
   validate [0 \<mapsto> \<lparr>val = - 1, nxt = Some 1, removed = False\<rparr>, 1 \<mapsto> \<lparr>val = 5, nxt = None, removed = True\<rparr>] 0 (Some 1)
     = Some False \<and>
   validate [0 \<mapsto> \<lparr>val = - 1, nxt = Some 1, removed = False\<rparr>, 1 \<mapsto> \<lparr>val = 5, nxt = None, removed = False\<rparr>] 0 (Some 1)
     = Some True"
  using validate_iff[of "[0 \<mapsto> \<lparr>val = - 1, nxt = Some 1, removed = False\<rparr>, 1 \<mapsto> \<lparr>val = 5, nxt = None, removed = True\<rparr>]"
          0 "\<lparr>val = - 1, nxt = Some 1, removed = False\<rparr>" "Some 1"]
        validate_iff[of "[0 \<mapsto> \<lparr>val = - 1, nxt = Some 1, removed = False\<rparr>, 1 \<mapsto> \<lparr>val = 5, nxt = None, removed = False\<rparr>]"
          0 "\<lparr>val = - 1, nxt = Some 1, removed = False\<rparr>" "Some 1"]
  by simp

text \<open>
  C9. From the empty list, in both classes: after \<^verbatim>\<open>insert(10)\<close>, \<^verbatim>\<open>insert(5)\<close>, \<^verbatim>\<open>insert(20)\<close>
  the snapshot is \<open>[5, 10, 20]\<close> and \<^verbatim>\<open>contains(10)\<close> is true; \<^verbatim>\<open>remove(10)\<close> then returns true,
  after which \<^verbatim>\<open>contains(10)\<close> is false and the snapshot is \<open>[5, 20]\<close>; \<^verbatim>\<open>remove(99)\<close> returns
  false and the snapshot stays \<open>[5, 20]\<close>.
\<close>

theorem scenario:
  "map_option snd (run fine_step FineGrainedList
      [Insert 10, Insert 5, Insert 20, Contains 10, Remove 10, Contains 10, Remove 99])
     = Some [Done, Done, Done, Bool True, Bool True, Bool False, Bool False] \<and>
   Option.bind (run fine_step FineGrainedList [Insert 10, Insert 5, Insert 20])
      (\<lambda>(s, rs). fine_snapshot s) = Some [5, 10, 20] \<and>
   Option.bind (run fine_step FineGrainedList [Insert 10, Insert 5, Insert 20, Contains 10, Remove 10])
      (\<lambda>(s, rs). fine_snapshot s) = Some [5, 20] \<and>
   Option.bind (run fine_step FineGrainedList
      [Insert 10, Insert 5, Insert 20, Contains 10, Remove 10, Contains 10, Remove 99])
      (\<lambda>(s, rs). fine_snapshot s) = Some [5, 20] \<and>
   map_option snd (run marked_step MarkedList
      [Insert 10, Insert 5, Insert 20, Contains 10, Remove 10, Contains 10, Remove 99])
     = Some [Done, Done, Done, Bool True, Bool True, Bool False, Bool False] \<and>
   Option.bind (run marked_step MarkedList [Insert 10, Insert 5, Insert 20])
      (\<lambda>(s, rs). printList s) = Some [5, 10, 20] \<and>
   Option.bind (run marked_step MarkedList [Insert 10, Insert 5, Insert 20, Contains 10, Remove 10])
      (\<lambda>(s, rs). printList s) = Some [5, 20] \<and>
   Option.bind (run marked_step MarkedList
      [Insert 10, Insert 5, Insert 20, Contains 10, Remove 10, Contains 10, Remove 99])
      (\<lambda>(s, rs). printList s) = Some [5, 20]"
  by code_simp

text \<open>
  C1. For every finite sequence of \<^verbatim>\<open>insert\<close>, \<^verbatim>\<open>remove\<close> and \<^verbatim>\<open>contains\<close> calls run by one
  thread on an empty list of either class, the sequence runs to its end, and \<^verbatim>\<open>contains(v)\<close>
  called after it returns true exactly when \<^verbatim>\<open>insert(v)\<close> was called more often than
  \<^verbatim>\<open>remove(v)\<close> returned true.
\<close>

theorem membership_counts:
  "\<exists>sf rf sm rm.
     run fine_step FineGrainedList ops = Some (sf, rf) \<and>
     fine_contains sf v = Some (sf, successful_removes v ops rf < insert_calls v ops) \<and>
     run marked_step MarkedList ops = Some (sm, rm) \<and>
     marked_contains sm v = Some (sm, successful_removes v ops rm < insert_calls v ops)"
proof -
  from fine_run_new[of ops] obtain sf cf where
    f: "run fine_step FineGrainedList ops = Some (sf, snd (set_run [] ops))" "fine_inv sf cf"
       "map snd cf = fst (set_run [] ops)" by blast
  from marked_run_new[of ops] obtain sm cm where
    m: "run marked_step MarkedList ops = Some (sm, snd (set_run [] ops))" "marked_inv sm cm"
       "map snd cm = fst (set_run [] ops)" by blast
  from f(2) have "chain_inv sf cf" by (simp add: fine_inv_def)
  from fine_contains_result[OF this, of v]
  have "fine_contains sf v = Some (sf, v \<in> set (map snd cf))" by simp
  with f(3) have 1: "fine_contains sf v =
      Some (sf, successful_removes v ops (snd (set_run [] ops)) < insert_calls v ops)"
    by (simp only: set_run_member)
  from marked_contains_result[OF marked_contains_attempt_result[OF m(2), of v]]
  have "marked_contains sm v = Some (sm, v \<in> set (map snd cm))" by simp
  with m(3) have 2: "marked_contains sm v =
      Some (sm, successful_removes v ops (snd (set_run [] ops)) < insert_calls v ops)"
    by (simp only: set_run_member)
  from f(1) m(1) 1 2 show ?thesis by blast
qed

text \<open>
  C6. For every finite sequence of calls run by one thread on an empty FineGrainedList and on
  an empty MarkedList, every call returns the same result in both, and at the end the chain
  of the FineGrainedList holds the values that \<^verbatim>\<open>printList\<close> writes for the MarkedList.
\<close>

theorem variants_agree:
  "\<exists>sf sm rs xs.
     run fine_step FineGrainedList ops = Some (sf, rs) \<and>
     run marked_step MarkedList ops = Some (sm, rs) \<and>
     fine_snapshot sf = Some xs \<and> printList sm = Some xs"
proof -
  from fine_run_new[of ops] obtain sf cf where
    f: "run fine_step FineGrainedList ops = Some (sf, snd (set_run [] ops))" "fine_inv sf cf"
       "map snd cf = fst (set_run [] ops)" by blast
  from marked_run_new[of ops] obtain sm cm where
    m: "run marked_step MarkedList ops = Some (sm, snd (set_run [] ops))" "marked_inv sm cm"
       "map snd cm = fst (set_run [] ops)" by blast
  from f(2) have "chain_inv sf cf" by (simp add: fine_inv_def)
  from fine_snapshot_inv[OF this] f(3) have "fine_snapshot sf = Some (fst (set_run [] ops))" by simp
  moreover from printList_inv[OF m(2)] m(3) have "printList sm = Some (fst (set_run [] ops))" by simp
  ultimately show ?thesis using f(1) m(1) by blast
qed

text \<open>
  C2. In every state that a list of either class reaches from the empty list, \<^verbatim>\<open>insert(v)\<close>
  returns for every \<open>v\<close>. It allocates exactly one node, which holds \<open>v\<close>, and links it
  into the chain behind the nodes with a smaller value and in front of all others, so
  directly in front of the first node that already holds \<open>v\<close> when there is one. The
  snapshot afterwards is the sorted insertion of \<open>v\<close> into the snapshot before.
\<close>

theorem insert_effect:
  assumes "run fine_step FineGrainedList ops = Some (sf, rf)"
    and "run marked_step MarkedList ops' = Some (sm, rm)"
  shows "\<exists>cf cm sf' sm'.
     fine_inv sf cf \<and> fine_snapshot sf = Some (map snd cf) \<and>
     fine_insert sf v = Some sf' \<and>
     fine_inv sf' (below v cf @ (brk sf, v) # upward v cf) \<and>
     fine_snapshot sf' = Some (insort v (map snd cf)) \<and>
     brk sf \<notin> dom (heap sf) \<and> dom (heap sf') = insert (brk sf) (dom (heap sf)) \<and>
     map_option val (heap sf' (brk sf)) = Some v \<and>
     (v \<in> snd ` set cf \<longrightarrow> (\<exists>c bs. upward v cf = (c, v) # bs)) \<and>
     marked_inv sm cm \<and> printList sm = Some (map snd cm) \<and>
     marked_insert sm v = Some sm' \<and>
     marked_inv sm' (below v cm @ (brk sm, v) # upward v cm) \<and>
     printList sm' = Some (insort v (map snd cm)) \<and>
     brk sm \<notin> dom (heap sm) \<and> dom (heap sm') = insert (brk sm) (dom (heap sm)) \<and>
     map_option val (heap sm' (brk sm)) = Some v \<and>
     (v \<in> snd ` set cm \<longrightarrow> (\<exists>c bs. upward v cm = (c, v) # bs))"
proof -
  from fine_reach_inv[OF assms(1)] obtain cf where f: "fine_inv sf cf" by blast
  from marked_reach_inv[OF assms(2)] obtain cm where m: "marked_inv sm cm" by blast
  from f have cif: "chain_inv sf cf" by (simp add: fine_inv_def)
  from m have cim: "chain_inv sm cm" by (simp add: marked_inv_def)
  from fine_insert_sim[OF f, of v] obtain sf' where
    f': "fine_insert sf v = Some sf'" "fine_inv sf' (below v cf @ (brk sf, v) # upward v cf)"
    and hd: "head sf' = head sf" by blast
  from marked_insert_sim[OF m, of v] obtain sm' where
    m': "marked_insert sm v = Some sm'" "marked_inv sm' (below v cm @ (brk sm, v) # upward v cm)"
        "dom (heap sm') = insert (brk sm) (dom (heap sm))" by blast
  from f'(2) have cif': "chain_inv sf' (below v cf @ (brk sf, v) # upward v cf)"
    by (simp add: fine_inv_def)
  have 1: "fine_snapshot sf' = Some (insort v (map snd cf))"
    using fine_snapshot_inv[OF cif'] by (simp add: insort_below_upward)
  have 2: "printList sm' = Some (insort v (map snd cm))"
    using printList_inv[OF m'(2)] by (simp add: insort_below_upward)
  have 3: "dom (heap sf') = insert (brk sf) (dom (heap sf))"
    using f f'(2) hd set_below_upward[of cf v] by (auto simp: fine_inv_def)
  have 4: "v \<in> snd ` set cf \<longrightarrow> (\<exists>c bs. upward v cf = (c, v) # bs)"
    using cif by (auto simp: chain_inv_def intro: sorted_present_upward)
  have 5: "v \<in> snd ` set cm \<longrightarrow> (\<exists>c bs. upward v cm = (c, v) # bs)"
    using cim by (auto simp: chain_inv_def intro: sorted_present_upward)
  have 6: "map_option val (heap sf' (brk sf)) = Some v"
    using chain_inv_cell[OF cif', of "brk sf" v] by auto
  have 7: "map_option val (heap sm' (brk sm)) = Some v"
    using chain_inv_cell[of sm' "below v cm @ (brk sm, v) # upward v cm" "brk sm" v] m'(2)
    by (auto simp: marked_inv_def)
  from f m f' m' 1 2 3 4 5 6 7 fine_snapshot_inv[OF cif] printList_inv[OF m] inv_fresh[OF cif]
    inv_fresh[OF cim]
  show ?thesis by blast
qed

theorem insert_effect_witness:
  "\<exists>sf sm. run fine_step FineGrainedList [Insert 5] = Some (sf, [Done]) \<and>
     run marked_step MarkedList [Insert 5, Insert 7] = Some (sm, [Done, Done]) \<and>
     (\<exists>sf' sm'. fine_insert sf 5 = Some sf' \<and> fine_snapshot sf' = Some [5, 5] \<and>
        marked_insert sm 5 = Some sm' \<and> printList sm' = Some [5, 5, 7])"
proof -
  have "map_option snd (run fine_step FineGrainedList [Insert 5]) = Some [Done]"
    by code_simp
  then obtain sf where rf: "run fine_step FineGrainedList [Insert 5] = Some (sf, [Done])"
    by (auto dest: run_results)
  have "Option.bind (run fine_step FineGrainedList [Insert 5]) (\<lambda>(s, rs). fine_snapshot s) = Some [5]"
    by code_simp
  with rf have snf: "fine_snapshot sf = Some [5]" by simp
  have "map_option snd (run marked_step MarkedList [Insert 5, Insert 7]) = Some [Done, Done]"
    by code_simp
  then obtain sm where rm: "run marked_step MarkedList [Insert 5, Insert 7] = Some (sm, [Done, Done])"
    by (auto dest: run_results)
  have "Option.bind (run marked_step MarkedList [Insert 5, Insert 7]) (\<lambda>(s, rs). printList s)
      = Some [5, 7]"
    by code_simp
  with rm have snm: "printList sm = Some [5, 7]" by simp
  from insert_effect[OF rf rm, of 5] snf snm rf rm show ?thesis
    by (auto simp del: run.simps)
qed

text \<open>
  C3. In every state that a list of either class reaches from the empty list: when a node
  holding \<open>v\<close> is in the chain, \<^verbatim>\<open>remove(v)\<close> returns true and unlinks the first such node and
  no other, so that the snapshot loses one occurrence of \<open>v\<close> and every other value occurs as
  often as before (FineGrainedList frees the node, MarkedList marks it and keeps it);
  otherwise \<^verbatim>\<open>remove(v)\<close> returns false and leaves the whole memory as it was.
\<close>

theorem remove_effect:
  assumes "run fine_step FineGrainedList ops = Some (sf, rf)"
    and "run marked_step MarkedList ops' = Some (sm, rm)"
  shows "\<exists>cf cm.
     fine_inv sf cf \<and> fine_snapshot sf = Some (map snd cf) \<and>
     (if v \<in> snd ` set cf
      then \<exists>c bs sf'. cf = below v cf @ (c, v) # bs \<and> fine_remove sf v = Some (sf', True) \<and>
             fine_inv sf' (below v cf @ bs) \<and> heap sf' c = None \<and>
             fine_snapshot sf' = Some (remove1 v (map snd cf)) \<and>
             (\<forall>w. count_list (remove1 v (map snd cf)) w + (if w = v then 1 else 0)
                    = count_list (map snd cf) w)
      else fine_remove sf v = Some (sf, False)) \<and>
     marked_inv sm cm \<and> printList sm = Some (map snd cm) \<and>
     (if v \<in> snd ` set cm
      then \<exists>c bs sm' cn. cm = below v cm @ (c, v) # bs \<and> marked_remove sm v = Some (sm', True) \<and>
             marked_inv sm' (below v cm @ bs) \<and> heap sm' c = Some cn \<and> removed cn \<and>
             printList sm' = Some (remove1 v (map snd cm)) \<and>
             (\<forall>w. count_list (remove1 v (map snd cm)) w + (if w = v then 1 else 0)
                    = count_list (map snd cm) w)
      else marked_remove sm v = Some (sm, False))"
proof -
  from fine_reach_inv[OF assms(1)] obtain cf where f: "fine_inv sf cf" by blast
  from marked_reach_inv[OF assms(2)] obtain cm where m: "marked_inv sm cm" by blast
  from f have cif: "chain_inv sf cf" by (simp add: fine_inv_def)
  from m have cim: "chain_inv sm cm" by (simp add: marked_inv_def)
  have F: "if v \<in> snd ` set cf
      then \<exists>c bs sf'. cf = below v cf @ (c, v) # bs \<and> fine_remove sf v = Some (sf', True) \<and>
             fine_inv sf' (below v cf @ bs) \<and> heap sf' c = None \<and>
             fine_snapshot sf' = Some (remove1 v (map snd cf)) \<and>
             (\<forall>w. count_list (remove1 v (map snd cf)) w + (if w = v then 1 else 0)
                    = count_list (map snd cf) w)
      else fine_remove sf v = Some (sf, False)"
  proof (cases "v \<in> snd ` set cf")
    case False
    with fine_remove_absent[OF cif False] show ?thesis by simp
  next
    case True
    from fine_remove_unlinks[OF f True] obtain c bs sf' where
      up: "upward v cf = (c, v) # bs" and r: "fine_remove sf v = Some (sf', True)"
      "fine_inv sf' (below v cf @ bs)" "heap sf' c = None" by blast
    have cs: "cf = below v cf @ (c, v) # bs"
      using up below_upward[of v cf] by simp
    from r(2) have "chain_inv sf' (below v cf @ bs)" by (simp add: fine_inv_def)
    from fine_snapshot_inv[OF this] remove1_below_upward[OF up]
    have sn: "fine_snapshot sf' = Some (remove1 v (map snd cf))" by simp
    have cnt: "\<forall>w. count_list (remove1 v (map snd cf)) w + (if w = v then 1 else 0)
                    = count_list (map snd cf) w"
    proof
      fix w
      from True have "v \<in> set (map snd cf)" by simp
      from count_list_remove1[OF this, of w] show
        "count_list (remove1 v (map snd cf)) w + (if w = v then 1 else 0) = count_list (map snd cf) w"
        by (simp only: eq_commute[of v w])
    qed
    from cs r sn cnt True show ?thesis by (simp only: if_True) blast
  qed
  have M: "if v \<in> snd ` set cm
      then \<exists>c bs sm' cn. cm = below v cm @ (c, v) # bs \<and> marked_remove sm v = Some (sm', True) \<and>
             marked_inv sm' (below v cm @ bs) \<and> heap sm' c = Some cn \<and> removed cn \<and>
             printList sm' = Some (remove1 v (map snd cm)) \<and>
             (\<forall>w. count_list (remove1 v (map snd cm)) w + (if w = v then 1 else 0)
                    = count_list (map snd cm) w)
      else marked_remove sm v = Some (sm, False)"
  proof (cases "v \<in> snd ` set cm")
    case False
    with marked_remove_result[OF marked_remove_attempt_absent[OF m False]] show ?thesis by simp
  next
    case True
    from marked_remove_unlinks[OF m True] obtain c bs sm' cn where
      up: "upward v cm = (c, v) # bs" and r: "marked_remove sm v = Some (sm', True)"
      "marked_inv sm' (below v cm @ bs)" "heap sm' c = Some cn" "removed cn" by blast
    have cs: "cm = below v cm @ (c, v) # bs"
      using up below_upward[of v cm] by simp
    from printList_inv[OF r(2)] remove1_below_upward[OF up]
    have sn: "printList sm' = Some (remove1 v (map snd cm))" by simp
    have cnt: "\<forall>w. count_list (remove1 v (map snd cm)) w + (if w = v then 1 else 0)
                    = count_list (map snd cm) w"
    proof
      fix w
      from True have "v \<in> set (map snd cm)" by simp
      from count_list_remove1[OF this, of w] show
        "count_list (remove1 v (map snd cm)) w + (if w = v then 1 else 0) = count_list (map snd cm) w"
        by (simp only: eq_commute[of v w])
    qed
    from cs r sn cnt True show ?thesis by (simp only: if_True) blast
  qed
  from f m F M fine_snapshot_inv[OF cif] printList_inv[OF m] show ?thesis by blast
qed


theorem remove_effect_witness:
  "\<exists>sf sm. run fine_step FineGrainedList [Insert 5, Insert 5] = Some (sf, [Done, Done]) \<and>
     run marked_step MarkedList [Insert 5, Insert 5] = Some (sm, [Done, Done]) \<and>
     (\<exists>sf' sm'. fine_remove sf 5 = Some (sf', True) \<and> fine_snapshot sf' = Some [5] \<and>
        marked_remove sm 5 = Some (sm', True) \<and> printList sm' = Some [5]) \<and>
     fine_remove sf 9 = Some (sf, False) \<and> marked_remove sm 9 = Some (sm, False)"
proof -
  have "map_option snd (run fine_step FineGrainedList [Insert 5, Insert 5]) = Some [Done, Done]"
    by code_simp
  then obtain sf where rf: "run fine_step FineGrainedList [Insert 5, Insert 5] = Some (sf, [Done, Done])"
    by (auto dest: run_results)
  have "Option.bind (run fine_step FineGrainedList [Insert 5, Insert 5]) (\<lambda>(s, rs). fine_snapshot s)
      = Some [5, 5]"
    by code_simp
  with rf have snf: "fine_snapshot sf = Some [5, 5]" by simp
  have "map_option snd (run marked_step MarkedList [Insert 5, Insert 5]) = Some [Done, Done]"
    by code_simp
  then obtain sm where rm: "run marked_step MarkedList [Insert 5, Insert 5] = Some (sm, [Done, Done])"
    by (auto dest: run_results)
  have "Option.bind (run marked_step MarkedList [Insert 5, Insert 5]) (\<lambda>(s, rs). printList s)
      = Some [5, 5]"
    by code_simp
  with rm have snm: "printList sm = Some [5, 5]" by simp
  from remove_effect[OF rf rm, of 5] obtain cf cm where
    a: "fine_snapshot sf = Some (map snd cf)" "printList sm = Some (map snd cm)"
    and b: "if 5 \<in> snd ` set cf
      then \<exists>c bs sf'. cf = below 5 cf @ (c, 5) # bs \<and> fine_remove sf 5 = Some (sf', True) \<and>
             fine_inv sf' (below 5 cf @ bs) \<and> heap sf' c = None \<and>
             fine_snapshot sf' = Some (remove1 5 (map snd cf)) \<and>
             (\<forall>w. count_list (remove1 5 (map snd cf)) w + (if w = 5 then 1 else 0)
                    = count_list (map snd cf) w)
      else fine_remove sf 5 = Some (sf, False)"
    and c: "if 5 \<in> snd ` set cm
      then \<exists>c bs sm' cn. cm = below 5 cm @ (c, 5) # bs \<and> marked_remove sm 5 = Some (sm', True) \<and>
             marked_inv sm' (below 5 cm @ bs) \<and> heap sm' c = Some cn \<and> removed cn \<and>
             printList sm' = Some (remove1 5 (map snd cm)) \<and>
             (\<forall>w. count_list (remove1 5 (map snd cm)) w + (if w = 5 then 1 else 0)
                    = count_list (map snd cm) w)
      else marked_remove sm 5 = Some (sm, False)"
    by blast
  from a snf snm have vf: "map snd cf = [5, 5]" and vm: "map snd cm = [5, 5]" by simp_all
  from vf have "5 \<in> snd ` set cf" by (metis list.set_intros(1) set_map)
  with b vf obtain sf' where 1: "fine_remove sf 5 = Some (sf', True)" "fine_snapshot sf' = Some [5]"
    by auto
  from vm have "5 \<in> snd ` set cm" by (metis list.set_intros(1) set_map)
  with c vm obtain sm' where 2: "marked_remove sm 5 = Some (sm', True)" "printList sm' = Some [5]"
    by auto
  from remove_effect[OF rf rm, of 9] obtain cf' cm' where
    a': "fine_snapshot sf = Some (map snd cf')" "printList sm = Some (map snd cm')"
    and b': "if 9 \<in> snd ` set cf'
      then \<exists>c bs sf'. cf' = below 9 cf' @ (c, 9) # bs \<and> fine_remove sf 9 = Some (sf', True) \<and>
             fine_inv sf' (below 9 cf' @ bs) \<and> heap sf' c = None \<and>
             fine_snapshot sf' = Some (remove1 9 (map snd cf')) \<and>
             (\<forall>w. count_list (remove1 9 (map snd cf')) w + (if w = 9 then 1 else 0)
                    = count_list (map snd cf') w)
      else fine_remove sf 9 = Some (sf, False)"
    and c': "if 9 \<in> snd ` set cm'
      then \<exists>c bs sm' cn. cm' = below 9 cm' @ (c, 9) # bs \<and> marked_remove sm 9 = Some (sm', True) \<and>
             marked_inv sm' (below 9 cm' @ bs) \<and> heap sm' c = Some cn \<and> removed cn \<and>
             printList sm' = Some (remove1 9 (map snd cm')) \<and>
             (\<forall>w. count_list (remove1 9 (map snd cm')) w + (if w = 9 then 1 else 0)
                    = count_list (map snd cm') w)
      else marked_remove sm 9 = Some (sm, False)"
    by blast
  from a' snf snm have "map snd cf' = [5, 5]" and "map snd cm' = [5, 5]" by simp_all
  then have "9 \<notin> set (map snd cf')" "9 \<notin> set (map snd cm')" by simp_all
  then have "9 \<notin> snd ` set cf'" "9 \<notin> snd ` set cm'" by simp_all
  with b' c' have 3: "fine_remove sf 9 = Some (sf, False)" "marked_remove sm 9 = Some (sm, False)"
    by simp_all
  from rf rm 1 2 3 show ?thesis by blast
qed

text \<open>
  C4, as stated, asks that the chain stay sorted also when it is read from the sentinel
  itself and values below \<open>- 1\<close> are inserted. After \<^verbatim>\<open>insert(-5)\<close> on an empty list of either
  class that chain is \<open>[- 1, - 5]\<close>.
\<close>

theorem sentinel_order_counterexample:
  "Option.bind (run fine_step FineGrainedList [Insert (- 5)]) (fine_chain \<circ> fst) = Some [- 1, - 5] \<and>
   Option.bind (run marked_step MarkedList [Insert (- 5)]) (marked_chain \<circ> fst) = Some [- 1, - 5] \<and>
   \<not> sorted [- 1, - 5 :: int]"
  by code_simp

text \<open>
  C4, amended. After every sequence of calls run by one thread on an empty list of either
  class the snapshot is non-decreasing. The sentinel takes no part in the order: the chain
  read from the sentinel itself is \<open>- 1\<close> followed by the snapshot, and it is non-decreasing
  exactly when no value below \<open>- 1\<close> is in the list.
\<close>

theorem snapshot_sorted:
  "\<exists>sf sm rs xs.
     run fine_step FineGrainedList ops = Some (sf, rs) \<and>
     fine_snapshot sf = Some xs \<and> fine_chain sf = Some (- 1 # xs) \<and>
     run marked_step MarkedList ops = Some (sm, rs) \<and>
     printList sm = Some xs \<and> marked_chain sm = Some (- 1 # xs) \<and>
     sorted xs \<and> (sorted (- 1 # xs) \<longleftrightarrow> (\<forall>x \<in> set xs. - 1 \<le> x))"
proof -
  from fine_run_new[of ops] obtain sf cf where
    f: "run fine_step FineGrainedList ops = Some (sf, snd (set_run [] ops))" "fine_inv sf cf"
       "map snd cf = fst (set_run [] ops)" by blast
  from marked_run_new[of ops] obtain sm cm where
    m: "run marked_step MarkedList ops = Some (sm, snd (set_run [] ops))" "marked_inv sm cm"
       "map snd cm = fst (set_run [] ops)" by blast
  from f(2) have ci: "chain_inv sf cf" by (simp add: fine_inv_def)
  from ci f(3) have srt: "sorted (fst (set_run [] ops))" by (simp add: chain_inv_def)
  from fine_snapshot_inv[OF ci] f(3) have 1: "fine_snapshot sf = Some (fst (set_run [] ops))" by simp
  from fine_chain_inv[OF ci] f(3) have 2: "fine_chain sf = Some (- 1 # fst (set_run [] ops))" by simp
  from printList_inv[OF m(2)] m(3) have 3: "printList sm = Some (fst (set_run [] ops))" by simp
  from marked_chain_inv[OF m(2)] m(3) have 4: "marked_chain sm = Some (- 1 # fst (set_run [] ops))"
    by simp
  from srt have 5: "sorted (- 1 # fst (set_run [] ops)) \<longleftrightarrow> (\<forall>x \<in> set (fst (set_run [] ops)). - 1 \<le> x)"
    by simp
  from f(1) m(1) 1 2 3 4 5 srt show ?thesis by blast
qed

theorem snapshot_sorted_witness:
  "Option.bind (run fine_step FineGrainedList [Insert 3, Insert (- 1)]) (fine_chain \<circ> fst)
     = Some [- 1, - 1, 3] \<and>
   Option.bind (run marked_step MarkedList [Insert 3, Insert (- 1)]) (marked_chain \<circ> fst)
     = Some [- 1, - 1, 3] \<and>
   sorted [- 1, - 1, 3 :: int]"
proof -
  have a: "Option.bind (run fine_step FineGrainedList [Insert 3, Insert (- 1)]) (fine_chain \<circ> fst)
     = Some [- 1, - 1, 3]" by code_simp
  have b: "Option.bind (run marked_step MarkedList [Insert 3, Insert (- 1)]) (marked_chain \<circ> fst)
     = Some [- 1, - 1, 3]" by code_simp
  from snapshot_sorted[of "[Insert 3, Insert (- 1)]"] obtain sf sm rs xs where
    r: "run fine_step FineGrainedList [Insert 3, Insert (- 1)] = Some (sf, rs)"
       "fine_chain sf = Some (- 1 # xs)"
       "sorted (- 1 # xs) \<longleftrightarrow> (\<forall>x \<in> set xs. - 1 \<le> x)"
    by blast
  from a r(1,2) have xs: "xs = [- 1, 3]" by simp
  then have "\<forall>x \<in> set xs. - 1 \<le> x" by simp
  with r(3) have "sorted (- 1 # xs)" by blast
  with xs have "sorted [- 1, - 1, 3 :: int]" by (simp only:)
  with a b show ?thesis by (intro conjI)
qed

text \<open>
  C8, as stated, places the sentinel's value outside the valid values. The sentinel holds
  \<open>- 1\<close>, and \<open>- 1\<close> is a value like any other: \<^verbatim>\<open>insert(-1)\<close> stores it, \<^verbatim>\<open>contains(-1)\<close> then finds
  it and \<^verbatim>\<open>remove(-1)\<close> removes it.
\<close>

theorem sentinel_value_counterexample:
  "map_option val (heap FineGrainedList (head FineGrainedList)) = Some (- 1) \<and>
   map_option snd (run fine_step FineGrainedList [Insert (- 1), Contains (- 1), Remove (- 1)])
     = Some [Done, Bool True, Bool True] \<and>
   map_option val (heap MarkedList (head MarkedList)) = Some (- 1) \<and>
   map_option snd (run marked_step MarkedList [Insert (- 1), Contains (- 1), Remove (- 1)])
     = Some [Done, Bool True, Bool True]"
  by code_simp

text \<open>
  C8, amended. The sentinel holds \<open>- 1\<close>, which is a valid value. In every state that a list
  of either class reaches from the empty list, and for every \<open>v\<close>, \<open>- 1\<close> included: \<open>head\<close> is
  still the sentinel allocated by the constructor, it still holds \<open>- 1\<close> (and is not marked
  in MarkedList); the node at which the traversal for \<open>v\<close> stops is not the sentinel, and
  \<^verbatim>\<open>contains(v)\<close> is true only when \<open>v\<close> is in the snapshot, which starts behind the sentinel;
  and after \<^verbatim>\<open>remove(v)\<close> the sentinel is still the allocated head.
\<close>

theorem sentinel_permanent:
  assumes "run fine_step FineGrainedList ops = Some (sf, rf)"
    and "run marked_step MarkedList ops' = Some (sm, rm)"
  shows "head sf = head FineGrainedList \<and>
     (\<exists>hn. heap sf (head sf) = Some hn \<and> val hn = - 1) \<and>
     (\<exists>l p c xs. fine_locate sf v = Some (l, p, c) \<and> c \<noteq> Some (head sf) \<and>
        fine_snapshot sf = Some xs \<and> fine_contains sf v = Some (sf, v \<in> set xs)) \<and>
     (\<exists>s' b hn'. fine_remove sf v = Some (s', b) \<and> head s' = head sf \<and>
        heap s' (head s') = Some hn' \<and> val hn' = - 1) \<and>
     head sm = head MarkedList \<and>
     (\<exists>hn. heap sm (head sm) = Some hn \<and> val hn = - 1 \<and> \<not> removed hn) \<and>
     (\<exists>l p c xs. marked_locate sm v = Some (l, p, c) \<and> c \<noteq> Some (head sm) \<and>
        printList sm = Some xs \<and> marked_contains sm v = Some (sm, v \<in> set xs)) \<and>
     (\<exists>s' b hn'. marked_remove sm v = Some (s', b) \<and> head s' = head sm \<and>
        heap s' (head s') = Some hn' \<and> val hn' = - 1 \<and> \<not> removed hn')"
proof -
  from fine_run_new[of ops] assms(1) obtain cf where
    f: "fine_inv sf cf" "head sf = head FineGrainedList" by auto
  from marked_run_new[of ops'] assms(2) obtain cm where
    m: "marked_inv sm cm" "head sm = head MarkedList" by auto
  from fine_sentinel[OF f(1), of v] marked_sentinel[OF m(1), of v] f(2) m(2)
  show ?thesis by simp
qed

theorem sentinel_permanent_witness:
  "\<exists>sf sm. run fine_step FineGrainedList [Insert (- 1), Remove (- 1), Remove (- 1)]
        = Some (sf, [Done, Bool True, Bool False]) \<and>
     run marked_step MarkedList [Insert (- 1), Remove (- 1), Remove (- 1)]
        = Some (sm, [Done, Bool True, Bool False]) \<and>
     head sf = 0 \<and> head sm = 0 \<and>
     fine_contains sf (- 1) = Some (sf, False) \<and> marked_contains sm (- 1) = Some (sm, False) \<and>
     map_option val (heap sf 0) = Some (- 1) \<and> map_option val (heap sm 0) = Some (- 1)"
proof -
  have "map_option snd (run fine_step FineGrainedList [Insert (- 1), Remove (- 1), Remove (- 1)])
      = Some [Done, Bool True, Bool False]"
    by code_simp
  then obtain sf where
    rf: "run fine_step FineGrainedList [Insert (- 1), Remove (- 1), Remove (- 1)]
        = Some (sf, [Done, Bool True, Bool False])"
    by (auto dest: run_results)
  have "Option.bind (run fine_step FineGrainedList [Insert (- 1), Remove (- 1), Remove (- 1)])
      (fine_snapshot \<circ> fst) = Some []"
    by code_simp
  with rf have snf: "fine_snapshot sf = Some []" by simp
  have "map_option snd (run marked_step MarkedList [Insert (- 1), Remove (- 1), Remove (- 1)])
      = Some [Done, Bool True, Bool False]"
    by code_simp
  then obtain sm where
    rm: "run marked_step MarkedList [Insert (- 1), Remove (- 1), Remove (- 1)]
        = Some (sm, [Done, Bool True, Bool False])"
    by (auto dest: run_results)
  have "Option.bind (run marked_step MarkedList [Insert (- 1), Remove (- 1), Remove (- 1)])
      (printList \<circ> fst) = Some []"
    by code_simp
  with rm have snm: "printList sm = Some []" by simp
  have h0: "head FineGrainedList = 0" "head MarkedList = 0"
    by (simp_all add: FineGrainedList_def MarkedList_def)
  from sentinel_permanent[OF rf rm, of "- 1"] snf snm h0 rf rm show ?thesis
    by (auto simp del: run.simps)
qed

text \<open>
  C7. In MarkedList, in every state reached from the empty list, when \<^verbatim>\<open>remove(v)\<close> returns
  true, with \<open>c\<close> the node at which its traversal stopped and \<open>pred\<close> the node in front of it:
  the pass of \<^verbatim>\<open>remove\<close> makes exactly two stores. After the first the memory differs from the
  one before the call in the mark of \<open>c\<close> alone, so \<open>c\<close> is marked while \<open>pred\<close> still points to
  it; after the second \<open>pred\<close> points past \<open>c\<close>. No node is freed, and \<open>c\<close> stays allocated and
  marked through all further calls. In every later state the traversal of \<^verbatim>\<open>contains(w)\<close> stops
  neither at \<open>c\<close> nor with \<open>c\<close> as predecessor, the answer of \<^verbatim>\<open>contains(w)\<close> is read from the node
  it stopped at, and it is true exactly when \<open>w\<close> is among the values that \<^verbatim>\<open>printList\<close> writes:
  \<open>c\<close> is never reported, whatever other nodes hold the same value. Every node reachable from
  the sentinel, before and after the call, is unmarked.
\<close>

theorem lazy_remove:
  assumes rn: "run marked_step MarkedList ops = Some (s, rs)"
    and rm: "marked_remove s v = Some (s', True)"
  shows "\<exists>l pred c cn pn s1 s2.
     marked_locate s v = Some (l, pred, Some c) \<and>
     heap s c = Some cn \<and> val cn = v \<and> \<not> removed cn \<and>
     heap s pred = Some pn \<and> nxt pn = Some c \<and> pred \<noteq> c \<and>
     marked_remove_attempt_traced s v = Some (Return (s', True), [s1, s2]) \<and>
     heap s1 = (heap s)(c \<mapsto> cn\<lparr>removed := True\<rparr>) \<and>
     heap s1 pred = Some pn \<and>
     heap s2 = (heap s1)(pred \<mapsto> pn\<lparr>nxt := nxt cn\<rparr>) \<and>
     heap s' = heap s2 \<and>
     dom (heap s') = dom (heap s) \<and>
     heap s' c = Some (cn\<lparr>removed := True\<rparr>) \<and>
     (\<forall>ops' s'' rs' w. run marked_step s' ops' = Some (s'', rs') \<longrightarrow>
        heap s'' c = Some (cn\<lparr>removed := True\<rparr>) \<and>
        (\<exists>l' p q ys. marked_locate s'' w = Some (l', p, q) \<and> q \<noteq> Some c \<and> p \<noteq> c \<and>
           marked_contains s'' w =
             Some (s'', case q of
                          None \<Rightarrow> False
                        | Some d \<Rightarrow>
                            (case heap s'' d of
                               None \<Rightarrow> False
                             | Some dn \<Rightarrow> \<not> removed dn \<and> val dn = w)) \<and>
           printList s'' = Some ys \<and> marked_contains s'' w = Some (s'', w \<in> set ys))) \<and>
     (\<exists>cs. lseg (heap s) (Some (head s)) ((head s, - 1) # cs) None \<and>
        (\<forall>a \<in> insert (head s) (fst ` set cs). \<exists>n. heap s a = Some n \<and> \<not> removed n)) \<and>
     (\<exists>cs'. lseg (heap s') (Some (head s')) ((head s', - 1) # cs') None \<and>
        (\<forall>a \<in> insert (head s') (fst ` set cs'). \<exists>n. heap s' a = Some n \<and> \<not> removed n))"
proof -
  have unmarked: "\<exists>ds. lseg (heap t) (Some (head t)) ((head t, - 1) # ds) None \<and>
        (\<forall>a \<in> insert (head t) (fst ` set ds). \<exists>n. heap t a = Some n \<and> \<not> removed n)"
    if "marked_inv t ds" for t :: "mnode memory" and ds
  proof -
    from that have "lseg (heap t) (Some (head t)) ((head t, - 1) # ds) None"
      by (simp add: marked_inv_def chain_inv_def)
    moreover from that
    have "\<forall>a \<in> insert (head t) (fst ` set ds). \<exists>n. heap t a = Some n \<and> \<not> removed n"
      unfolding marked_inv_def by (auto split: option.splits)
    ultimately show ?thesis by blast
  qed
  from marked_reach_inv[OF rn] obtain cs where inv: "marked_inv s cs" by blast
  from inv have ci: "chain_inv s cs" by (simp add: marked_inv_def)
  from ci have held: "held s = {}" by (simp add: chain_inv_def)
  have present: "v \<in> snd ` set cs"
  proof (rule ccontr)
    assume "v \<notin> snd ` set cs"
    from marked_remove_result[OF marked_remove_attempt_absent[OF inv this]] rm show False by simp
  qed
  from marked_remove_attempt_present[OF inv present] obtain c bs pn cn where
    up: "upward v cs = (c, v) # bs" and pn: "heap s (pred_of (head s) v cs) = Some pn"
    and cn: "heap s c = Some cn"
    and res: "marked_remove_attempt s v =
           Some (Return (s\<lparr>heap := (heap s)(c \<mapsto> cn\<lparr>removed := True\<rparr>,
                                   pred_of (head s) v cs \<mapsto> pn\<lparr>nxt := nxt cn\<rparr>)\<rparr>, True))"
    by blast
  let ?p = "pred_of (head s) v cs"
  from chain_inv_unlink[OF ci up] pn cn have
    f: "nxt pn = Some c" "?p \<noteq> c" "head s \<noteq> c" "c \<notin> fst ` set (below v cs @ bs)"
       "val cn = v"
    by auto
  from up have mem: "(c, v) \<in> set cs" using upward_subset[of v cs] by auto
  with inv cn have unm: "\<not> removed cn" unfolding marked_inv_def by force
  define l where "l = s\<lparr>held := insert ?p {c}\<rparr>"
  define s1 where "s1 = l\<lparr>heap := (heap s)(c \<mapsto> cn\<lparr>removed := True\<rparr>)\<rparr>"
  define s2 where "s2 = s1\<lparr>heap := (heap s1)(?p \<mapsto> pn\<lparr>nxt := nxt cn\<rparr>)\<rparr>"
  have s': "s' = s\<lparr>heap := (heap s)(c \<mapsto> cn\<lparr>removed := True\<rparr>, ?p \<mapsto> pn\<lparr>nxt := nxt cn\<rparr>)\<rparr>"
    using marked_remove_result[OF res] rm by simp
  have 1: "marked_locate s v = Some (l, ?p, Some c)"
    using marked_locate_inv[OF ci, of v] up by (simp add: ptr_def l_def)
  from up validate_inv[OF inv, of v]
  have val: "validate (heap s) ?p (Some c) = Some True"
    by (simp add: ptr_def)
  have "insert ?p {c} - {c} - {?p} = {}" by auto
  with up f held val cn pn
  have 2: "marked_remove_attempt_traced s v = Some (Return (s', True), [s1, s2])"
    by (simp add: marked_remove_attempt_traced_def marked_locate_inv[OF ci] ptr_def
          mark_removed_def unlink_def release_eq held_empty_id s' s1_def s2_def l_def)
  have 3: "heap s1 = (heap s)(c \<mapsto> cn\<lparr>removed := True\<rparr>)" "heap s1 ?p = Some pn"
    using f(2) pn by (simp_all add: s1_def l_def)
  have 4: "heap s2 = (heap s1)(?p \<mapsto> pn\<lparr>nxt := nxt cn\<rparr>)"
    by (simp add: s2_def)
  have 5: "heap s' = heap s2"
    by (simp add: s' s2_def s1_def l_def)
  have 6: "heap s' c = Some (cn\<lparr>removed := True\<rparr>)"
    using f(2) by (simp add: s')
  have 8: "dom (heap s') = dom (heap s)"
    using cn pn by (auto simp: s')
  have inv': "marked_inv s' (below v cs @ bs)"
    unfolding s' by (rule marked_inv_unlink[OF inv up pn cn])
  have out: "c \<notin> insert (head s') (fst ` set (below v cs @ bs))"
    using f(3,4) by (simp add: s')
  have lt: "c < brk s'"
    using ci cn by (auto simp: chain_inv_def s')
  have 7: "\<forall>ops' s'' rs' w. run marked_step s' ops' = Some (s'', rs') \<longrightarrow>
        heap s'' c = Some (cn\<lparr>removed := True\<rparr>) \<and>
        (\<exists>l' p q ys. marked_locate s'' w = Some (l', p, q) \<and> q \<noteq> Some c \<and> p \<noteq> c \<and>
           marked_contains s'' w =
             Some (s'', case q of
                          None \<Rightarrow> False
                        | Some d \<Rightarrow>
                            (case heap s'' d of
                               None \<Rightarrow> False
                             | Some dn \<Rightarrow> \<not> removed dn \<and> val dn = w)) \<and>
           printList s'' = Some ys \<and> marked_contains s'' w = Some (s'', w \<in> set ys))"
  proof (intro allI impI)
    fix ops' s'' rs' w
    assume "run marked_step s' ops' = Some (s'', rs')"
    from marked_retired_unseen[OF inv' out lt this, of w] 6
    show "heap s'' c = Some (cn\<lparr>removed := True\<rparr>) \<and>
        (\<exists>l' p q ys. marked_locate s'' w = Some (l', p, q) \<and> q \<noteq> Some c \<and> p \<noteq> c \<and>
           marked_contains s'' w =
             Some (s'', case q of
                          None \<Rightarrow> False
                        | Some d \<Rightarrow>
                            (case heap s'' d of
                               None \<Rightarrow> False
                             | Some dn \<Rightarrow> \<not> removed dn \<and> val dn = w)) \<and>
           printList s'' = Some ys \<and> marked_contains s'' w = Some (s'', w \<in> set ys))"
      by simp
  qed
  note U = unmarked[OF inv] unmarked[OF inv']
  show ?thesis
    apply (rule exI[of _ l], rule exI[of _ ?p], rule exI[of _ c], rule exI[of _ cn],
        rule exI[of _ pn], rule exI[of _ s1], rule exI[of _ s2])
    using 1 cn f(5) unm pn f(1) f(2) 2 3 4 5 8 6 7 U
    apply (intro conjI)
                   apply assumption+
    done
qed

theorem lazy_remove_witness:
  "\<exists>s s' t t'.
     run marked_step MarkedList [Insert 5] = Some (s, [Done]) \<and>
     marked_remove s 5 = Some (s', True) \<and>
     (\<exists>s1 s2. marked_remove_attempt_traced s 5 = Some (Return (s', True), [s1, s2])) \<and>
     (\<exists>c cn. heap s' c = Some cn \<and> val cn = 5 \<and> removed cn) \<and>
     marked_contains s' 5 = Some (s', False) \<and>
     run marked_step MarkedList [Insert 5, Insert 5] = Some (t, [Done, Done]) \<and>
     marked_remove t 5 = Some (t', True) \<and>
     marked_contains t' 5 = Some (t', True)"
proof -
  have "map_option snd (run marked_step MarkedList [Insert 5]) = Some [Done]"
    by code_simp
  then obtain s where rs: "run marked_step MarkedList [Insert 5] = Some (s, [Done])"
    by (auto dest: run_results)
  have "map_option snd (Option.bind (run marked_step MarkedList [Insert 5])
          (\<lambda>(s, rs). marked_remove s 5)) = Some True"
    by code_simp
  with rs obtain s' where ms: "marked_remove s 5 = Some (s', True)"
    by auto
  have "Option.bind (Option.bind (run marked_step MarkedList [Insert 5])
          (\<lambda>(s, rs). marked_remove s 5)) (printList \<circ> fst) = Some []"
    by code_simp
  with rs ms have ps: "printList s' = Some []" by simp
  have "map_option snd (run marked_step MarkedList [Insert 5, Insert 5]) = Some [Done, Done]"
    by code_simp
  then obtain t where rt: "run marked_step MarkedList [Insert 5, Insert 5] = Some (t, [Done, Done])"
    by (auto dest: run_results)
  have "map_option snd (Option.bind (run marked_step MarkedList [Insert 5, Insert 5])
          (\<lambda>(s, rs). marked_remove s 5)) = Some True"
    by code_simp
  with rt obtain t' where mt: "marked_remove t 5 = Some (t', True)"
    by auto
  have "Option.bind (Option.bind (run marked_step MarkedList [Insert 5, Insert 5])
          (\<lambda>(s, rs). marked_remove s 5)) (printList \<circ> fst) = Some [5]"
    by code_simp
  with rt mt have pt: "printList t' = Some [5]" by simp
  have nil: "\<And>u. run marked_step u [] = Some (u, [])" by simp
  from lazy_remove[OF rs ms] obtain c cn s1 s2 where
    a: "val cn = 5" "heap s' c = Some (cn\<lparr>removed := True\<rparr>)"
       "marked_remove_attempt_traced s 5 = Some (Return (s', True), [s1, s2])"
    and b: "\<forall>ops' s'' rs' w. run marked_step s' ops' = Some (s'', rs') \<longrightarrow>
        heap s'' c = Some (cn\<lparr>removed := True\<rparr>) \<and>
        (\<exists>l' p q ys. marked_locate s'' w = Some (l', p, q) \<and> q \<noteq> Some c \<and> p \<noteq> c \<and>
           marked_contains s'' w =
             Some (s'', case q of
                          None \<Rightarrow> False
                        | Some d \<Rightarrow>
                            (case heap s'' d of
                               None \<Rightarrow> False
                             | Some dn \<Rightarrow> \<not> removed dn \<and> val dn = w)) \<and>
           printList s'' = Some ys \<and> marked_contains s'' w = Some (s'', w \<in> set ys))"
    by blast
  from b nil[of s'] have "\<exists>ys. printList s' = Some ys \<and> marked_contains s' 5 = Some (s', 5 \<in> set ys)"
    by blast
  with ps have cs: "marked_contains s' 5 = Some (s', False)" by simp
  from a(1,2) have node: "\<exists>c cn. heap s' c = Some cn \<and> val cn = 5 \<and> removed cn"
    by (intro exI[of _ c] exI[of _ "cn\<lparr>removed := True\<rparr>"]) simp
  from lazy_remove[OF rt mt] obtain c cn where
    "\<forall>ops' s'' rs' w. run marked_step t' ops' = Some (s'', rs') \<longrightarrow>
        heap s'' c = Some (cn\<lparr>removed := True\<rparr>) \<and>
        (\<exists>l' p q ys. marked_locate s'' w = Some (l', p, q) \<and> q \<noteq> Some c \<and> p \<noteq> c \<and>
           marked_contains s'' w =
             Some (s'', case q of
                          None \<Rightarrow> False
                        | Some d \<Rightarrow>
                            (case heap s'' d of
                               None \<Rightarrow> False
                             | Some dn \<Rightarrow> \<not> removed dn \<and> val dn = w)) \<and>
           printList s'' = Some ys \<and> marked_contains s'' w = Some (s'', w \<in> set ys))"
    by blast
  with nil[of t'] have "\<exists>ys. printList t' = Some ys \<and> marked_contains t' 5 = Some (t', 5 \<in> set ys)"
    by blast
  with pt have ct: "marked_contains t' 5 = Some (t', True)" by simp
  from rs ms a(3) node cs rt mt ct show ?thesis by blast
qed

text \<open>
  C10. In every state that a list of either class reaches from the empty list, with one
  thread: \<^verbatim>\<open>insert\<close>, \<^verbatim>\<open>remove\<close> and \<^verbatim>\<open>contains\<close> return; the body of each traversal loop runs at
  most as often as the list has elements, since the traversal bounded by the length of the
  snapshot gives the result of the unbounded one; and in MarkedList \<^verbatim>\<open>validate\<close> is true on
  the first pass, so that the first pass through \<^verbatim>\<open>while (true)\<close> already returns.
\<close>

theorem operations_terminate:
  assumes "run fine_step FineGrainedList ops = Some (sf, rf)"
    and "run marked_step MarkedList ops' = Some (sm, rm)"
  shows "\<exists>xs r sf1 sf2 b ys l pred cur sm1 sm2 b'.
     fine_snapshot sf = Some xs \<and>
     fine_locate_fuel (length xs) sf v = Some r \<and> fine_locate sf v = Some r \<and>
     fine_insert sf v = Some sf1 \<and> fine_remove sf v = Some (sf2, b) \<and>
     fine_contains sf v = Some (sf, v \<in> set xs) \<and>
     printList sm = Some ys \<and>
     marked_locate_fuel (length ys) sm v = Some (l, pred, cur) \<and>
     marked_locate sm v = Some (l, pred, cur) \<and>
     validate (heap l) pred cur = Some True \<and>
     marked_insert_attempt sm v = Some (Return sm1) \<and> marked_insert sm v = Some sm1 \<and>
     marked_remove_attempt sm v = Some (Return (sm2, b')) \<and> marked_remove sm v = Some (sm2, b') \<and>
     marked_contains_attempt sm v = Some (Return (sm, v \<in> set ys)) \<and>
     marked_contains sm v = Some (sm, v \<in> set ys)"
proof -
  from fine_reach_inv[OF assms(1)] obtain cf where f: "fine_inv sf cf" by blast
  from marked_reach_inv[OF assms(2)] obtain cm where m: "marked_inv sm cm" by blast
  from f have cif: "chain_inv sf cf" by (simp add: fine_inv_def)
  from m have cim: "chain_inv sm cm" by (simp add: marked_inv_def)
  note F1 = fine_snapshot_inv[OF cif]
  have F2: "fine_locate_fuel (length (map snd cf)) sf v = fine_locate sf v"
    by (rule fine_locate_fuel_inv[OF cif]) simp
  note F3 = fine_locate_inv[OF cif, of v]
  from fine_insert_sim[OF f, of v] obtain sf1 where F4: "fine_insert sf v = Some sf1" by blast
  from fine_remove_sim[OF f, of v] obtain sf2 b where F5: "fine_remove sf v = Some (sf2, b)" by blast
  from fine_contains_result[OF cif, of v]
  have F6: "fine_contains sf v = Some (sf, v \<in> set (map snd cf))" by simp
  note M1 = printList_inv[OF m]
  have M2: "marked_locate_fuel (length (map snd cm)) sm v = marked_locate sm v"
    by (rule marked_locate_fuel_inv[OF cim]) simp
  note M3 = marked_locate_inv[OF cim, of v]
  have M4: "validate (heap (sm\<lparr>held := insert (pred_of (head sm) v cm) (set_option (ptr (upward v cm)))\<rparr>))
      (pred_of (head sm) v cm) (ptr (upward v cm)) = Some True"
    using validate_inv[OF m, of v] by simp
  from marked_insert_attempt_result[OF m, of v] obtain sm1 where
    M5: "marked_insert_attempt sm v = Some (Return sm1)" by blast
  have "\<exists>sm2 b'. marked_remove_attempt sm v = Some (Return (sm2, b'))"
    using marked_remove_attempt_absent[OF m, of v] marked_remove_attempt_present[OF m, of v]
    by (cases "v \<in> snd ` set cm") blast+
  then obtain sm2 b' where M6: "marked_remove_attempt sm v = Some (Return (sm2, b'))" by blast
  from marked_contains_attempt_result[OF m, of v]
  have M7: "marked_contains_attempt sm v = Some (Return (sm, v \<in> set (map snd cm)))" by simp
  from F1 F2 F3 F4 F5 F6 M1 M2 M3 M4 M5 M6 M7 marked_insert_result[OF M5]
    marked_remove_result[OF M6] marked_contains_result[OF M7]
  show ?thesis by (simp del: set_map length_map)
qed


theorem operations_terminate_witness:
  "\<exists>sf sm. run fine_step FineGrainedList [Insert 5, Insert 7] = Some (sf, [Done, Done]) \<and>
     run marked_step MarkedList [Insert 5, Insert 7] = Some (sm, [Done, Done]) \<and>
     (\<exists>r. fine_locate_fuel 2 sf 6 = Some r \<and> fine_locate sf 6 = Some r) \<and>
     (\<exists>r. marked_locate_fuel 2 sm 6 = Some r \<and> marked_locate sm 6 = Some r) \<and>
     (\<exists>t. marked_insert_attempt sm 6 = Some (Return t)) \<and>
     fine_contains sf 6 = Some (sf, False) \<and> marked_contains sm 6 = Some (sm, False)"
proof -
  have "map_option snd (run fine_step FineGrainedList [Insert 5, Insert 7]) = Some [Done, Done]"
    by code_simp
  then obtain sf where rf: "run fine_step FineGrainedList [Insert 5, Insert 7] = Some (sf, [Done, Done])"
    by (auto dest: run_results)
  have "Option.bind (run fine_step FineGrainedList [Insert 5, Insert 7]) (fine_snapshot \<circ> fst)
      = Some [5, 7]"
    by code_simp
  with rf have snf: "fine_snapshot sf = Some [5, 7]" by simp
  have "map_option snd (run marked_step MarkedList [Insert 5, Insert 7]) = Some [Done, Done]"
    by code_simp
  then obtain sm where rm: "run marked_step MarkedList [Insert 5, Insert 7] = Some (sm, [Done, Done])"
    by (auto dest: run_results)
  have "Option.bind (run marked_step MarkedList [Insert 5, Insert 7]) (printList \<circ> fst)
      = Some [5, 7]"
    by code_simp
  with rm have snm: "printList sm = Some [5, 7]" by simp
  from operations_terminate[OF rf rm, of 6] snf snm rf rm show ?thesis
    by (auto simp: numeral_2_eq_2 simp del: run.simps)
qed

end
